theory Spec2Isabelle
  imports Main "HOL-Library.AList" "HOL-Library.Sublist" "HOL-Library.Char_ord"
    "HOL-Library.List_Lexorder" "HOL-Library.Product_Lexorder"
begin

section \<open>Text primitives\<close>

text \<open>
  Python strings are modelled as \<open>string\<close>: a character is a code point below 256. The
  character classes and the case mapping are the ones Python applies to these code
  points, in \<open>str\<close> methods and in regular expressions compiled without \<open>re.ASCII\<close>.
  White space (\<open>str.strip\<close>, \<open>str.split\<close>, the class \<open>\s\<close>) is \<open>\t \n \v \f \r\<close>, the
  separators \<open>0x1C\<close> to \<open>0x1F\<close>, the blank, \<open>0x85\<close> and \<open>0xA0\<close>. The decimal digits (the
  class \<open>\d\<close>, the digits \<open>int\<close> reads) are \<open>0\<close> to \<open>9\<close>; \<open>str.isdigit\<close> holds of the
  superscripts \<open>0xB2\<close>, \<open>0xB3\<close>, \<open>0xB9\<close> too. A word character (the class \<open>\w\<close>, which
  decides \<open>\b\<close>) is the underscore or a character of which \<open>str.isalnum\<close> holds: the
  ASCII letters and digits, \<open>0xAA\<close>, \<open>0xB2\<close>, \<open>0xB3\<close>, \<open>0xB5\<close>, \<open>0xB9\<close>, \<open>0xBA\<close>, the
  fractions \<open>0xBC\<close> to \<open>0xBE\<close> and the letters from \<open>0xC0\<close> on but \<open>0xD7\<close> and \<open>0xF7\<close>.
  \<open>str.lower\<close> maps \<open>A\<close> to \<open>Z\<close> and \<open>0xC0\<close> to \<open>0xDE\<close> but \<open>0xD7\<close> to the character 32
  places on and leaves the others. Under \<open>re.IGNORECASE\<close> an ASCII letter of a pattern
  matches its two cases and nothing else below 256.
\<close>

datatype py_error = IndexError | KeyError | ValueError

definition NL :: char where
  "NL = CHR 0x0A"

definition CR :: char where
  "CR = CHR 0x0D"

definition isspace :: "char \<Rightarrow> bool" where
  "isspace c \<longleftrightarrow> c \<in> set [CHR 0x09, CHR 0x0A, CHR 0x0B, CHR 0x0C, CHR 0x0D,
                        CHR 0x1C, CHR 0x1D, CHR 0x1E, CHR 0x1F, CHR 0x20, CHR 0x85, CHR 0xA0]"

definition isdigit :: "char \<Rightarrow> bool" where
  "isdigit c \<longleftrightarrow> c \<in> set ''0123456789''"

definition superscript_digits :: string where
  "superscript_digits = [CHR 0xB2, CHR 0xB3, CHR 0xB9]"

definition upper_letters :: string where
  "upper_letters = ''ABCDEFGHIJKLMNOPQRSTUVWXYZ''"

definition lower_letters :: string where
  "lower_letters = ''abcdefghijklmnopqrstuvwxyz''"

definition latin_upper :: string where
  "latin_upper =
     [CHR 0xC0, CHR 0xC1, CHR 0xC2, CHR 0xC3, CHR 0xC4, CHR 0xC5, CHR 0xC6,
      CHR 0xC7, CHR 0xC8, CHR 0xC9, CHR 0xCA, CHR 0xCB, CHR 0xCC, CHR 0xCD,
      CHR 0xCE, CHR 0xCF, CHR 0xD0, CHR 0xD1, CHR 0xD2, CHR 0xD3, CHR 0xD4,
      CHR 0xD5, CHR 0xD6, CHR 0xD8, CHR 0xD9, CHR 0xDA, CHR 0xDB, CHR 0xDC,
      CHR 0xDD, CHR 0xDE]"

definition latin_lower :: string where
  "latin_lower =
     [CHR 0xE0, CHR 0xE1, CHR 0xE2, CHR 0xE3, CHR 0xE4, CHR 0xE5, CHR 0xE6,
      CHR 0xE7, CHR 0xE8, CHR 0xE9, CHR 0xEA, CHR 0xEB, CHR 0xEC, CHR 0xED,
      CHR 0xEE, CHR 0xEF, CHR 0xF0, CHR 0xF1, CHR 0xF2, CHR 0xF3, CHR 0xF4,
      CHR 0xF5, CHR 0xF6, CHR 0xF8, CHR 0xF9, CHR 0xFA, CHR 0xFB, CHR 0xFC,
      CHR 0xFD, CHR 0xFE]"

definition ascii_upper :: "char \<Rightarrow> bool" where
  "ascii_upper c \<longleftrightarrow> c \<in> set upper_letters"

definition ascii_alpha :: "char \<Rightarrow> bool" where
  "ascii_alpha c \<longleftrightarrow> c \<in> set upper_letters \<or> c \<in> set lower_letters"

definition isword :: "char \<Rightarrow> bool" where
  "isword c \<longleftrightarrow>
     ascii_alpha c \<or> isdigit c \<or> c = CHR ''_'' \<or>
     c \<in> set [CHR 0xAA, CHR 0xB2, CHR 0xB3, CHR 0xB5, CHR 0xB9, CHR 0xBA,
               CHR 0xBC, CHR 0xBD, CHR 0xBE, CHR 0xDF, CHR 0xFF] \<or>
     c \<in> set latin_upper \<or> c \<in> set latin_lower"

definition lower_char :: "char \<Rightarrow> char" where
  "lower_char c = (case map_of (zip (upper_letters @ latin_upper) (lower_letters @ latin_lower)) c of
                     Some d \<Rightarrow> d | None \<Rightarrow> c)"

definition lower :: "string \<Rightarrow> string" where
  "lower s = map lower_char s"

definition lstrip :: "string \<Rightarrow> string" where
  "lstrip s = dropWhile isspace s"

definition rstrip :: "string \<Rightarrow> string" where
  "rstrip s = rev (dropWhile isspace (rev s))"

definition strip :: "string \<Rightarrow> string" where
  "strip s = rstrip (lstrip s)"

text \<open>\<open>raw.rstrip("\r\n")\<close>: every trailing carriage return and line feed goes.\<close>

definition rstrip_crlf :: "string \<Rightarrow> string" where
  "rstrip_crlf s = rev (dropWhile (\<lambda>c. c = CR \<or> c = NL) (rev s))"

text \<open>\<open>k in s\<close> for strings: \<open>k\<close> occurs in \<open>s\<close> as a contiguous block.\<close>

fun contains :: "string \<Rightarrow> string \<Rightarrow> bool" where
  "contains k [] = (k = [])"
| "contains k (c # cs) = (prefix k (c # cs) \<or> contains k cs)"

text \<open>\<open>int(s)\<close> on a string of decimal digits, and \<open>str(n)\<close> on a natural number.\<close>

definition digit_val :: "char \<Rightarrow> nat" where
  "digit_val c = (case map_of (zip ''0123456789'' [0, 1, 2, 3, 4, 5, 6, 7, 8, 9]) c of
                    Some d \<Rightarrow> d | None \<Rightarrow> 0)"

definition int_of_digits :: "string \<Rightarrow> nat" where
  "int_of_digits s = foldl (\<lambda>n c. 10 * n + digit_val c) 0 s"

definition digit_char :: "nat \<Rightarrow> char" where
  "digit_char d = ''0123456789'' ! (d mod 10)"

fun str_of_nat :: "nat \<Rightarrow> string" where
  "str_of_nat n = (if n < 10 then [digit_char n] else str_of_nat (n div 10) @ [digit_char n])"

declare str_of_nat.simps [simp del]

section \<open>Tag Parser\<close>

text \<open>
  A record maps a tag to a single string or to a list of strings. The dictionary is an
  association list in insertion order, updated in place as a Python \<open>dict\<close> is.
\<close>

datatype ris_value = Scalar string | Lst "string list"

type_synonym ris_record = "(string \<times> ris_value) list"

text \<open>
  \<open>TAG_LINE_RE.match(line)\<close> for \<open>^(?P<tag>[A-Z0-9]{2})\s*-\s*(?P<val>.*)$\<close>: two tag
  characters, white space, a hyphen, white space, then the value. The dot matches no
  line feed and \<open>$\<close> stands at the end or before one closing line feed.
\<close>

definition is_tag_char :: "char \<Rightarrow> bool" where
  "is_tag_char c \<longleftrightarrow> ascii_upper c \<or> isdigit c"

definition dot_star_end :: "string \<Rightarrow> string option" where
  "dot_star_end v =
     (if NL \<notin> set v then Some v
      else if last v = NL \<and> NL \<notin> set (butlast v) then Some (butlast v)
      else None)"

fun tag_line :: "string \<Rightarrow> (string \<times> string) option" where
  "tag_line (a # b # rest) =
     (if is_tag_char a \<and> is_tag_char b then
        (case dropWhile isspace rest of
           [] \<Rightarrow> None
         | c # r \<Rightarrow> if c = CHR ''-'' then map_option (Pair [a, b]) (dot_star_end (dropWhile isspace r))
                    else None)
      else None)"
| "tag_line _ = None"

record parser_state =
  records :: "ris_record list"
  current :: ris_record
  last_tag :: "string option"

definition start_new :: "parser_state \<Rightarrow> parser_state" where
  "start_new st = st\<lparr>current := [], last_tag := None\<rparr>"

definition finish_one :: "parser_state \<Rightarrow> parser_state" where
  "finish_one st =
     (let st' = (if current st \<noteq> [] then st\<lparr>records := records st @ [current st]\<rparr> else st)
      in st'\<lparr>current := []\<rparr>)"

definition add_value :: "string \<Rightarrow> string \<Rightarrow> ris_record \<Rightarrow> ris_record" where
  "add_value tag val cur =
     (case map_of cur tag of
        Some (Lst vs) \<Rightarrow> AList.update tag (Lst (vs @ [val])) cur
      | Some (Scalar v) \<Rightarrow> AList.update tag (Lst [v, val]) cur
      | None \<Rightarrow> AList.update tag (Scalar val) cur)"

text \<open>
  A line that is no tag line continues the value of the last tag. \<open>current[last_tag][-1]\<close>
  raises \<open>IndexError\<close> on an empty list, which is a branch of the model.
\<close>

definition continuation :: "string \<Rightarrow> string \<Rightarrow> ris_record \<Rightarrow> py_error + ris_record" where
  "continuation lt line cur =
     (case map_of cur lt of
        Some (Lst vs) \<Rightarrow>
          (if vs = [] then Inl IndexError
           else Inr (AList.update lt (Lst (butlast vs @ [strip (last vs @ '' '' @ strip line)])) cur))
      | Some (Scalar v) \<Rightarrow> Inr (AList.update lt (Scalar (strip (v @ '' '' @ strip line))) cur)
      | None \<Rightarrow> Inr (AList.update lt (Scalar (strip ('''' @ '' '' @ strip line))) cur))"

definition process_line :: "parser_state \<Rightarrow> string \<Rightarrow> py_error + parser_state" where
  "process_line st raw =
     (let line = rstrip_crlf raw in
      case tag_line line of
        None \<Rightarrow>
          (case last_tag st of
             None \<Rightarrow> Inr st
           | Some lt \<Rightarrow>
               if lt \<noteq> [] \<and> strip line \<noteq> [] then
                 (case continuation lt line (current st) of
                    Inl e \<Rightarrow> Inl e
                  | Inr cur \<Rightarrow> Inr (st\<lparr>current := cur\<rparr>))
               else Inr st)
      | Some (t, v) \<Rightarrow>
          (let tag = strip t; val = strip v; st1 = st\<lparr>last_tag := Some tag\<rparr> in
           if tag = ''ER'' then Inr (start_new (finish_one st1))
           else Inr (st1\<lparr>current := add_value tag val (current st1)\<rparr>)))"

fun process_lines :: "parser_state \<Rightarrow> string list \<Rightarrow> py_error + parser_state" where
  "process_lines st [] = Inr st"
| "process_lines st (raw # raws) =
     (case process_line st raw of
        Inl e \<Rightarrow> Inl e
      | Inr st' \<Rightarrow> process_lines st' raws)"

definition initial_state :: parser_state where
  "initial_state = \<lparr>records = [], current = [], last_tag = None\<rparr>"

text \<open>\<open>parse_ris_file\<close> on the lines the file yields, in order.\<close>

definition parse_ris_file :: "string list \<Rightarrow> py_error + ris_record list" where
  "parse_ris_file raws =
     (case process_lines initial_state raws of
        Inl e \<Rightarrow> Inl e
      | Inr st \<Rightarrow> Inr (records st))"

text \<open>
  The notions the properties of the parser are stated with. An end-of-record line is a
  tag line whose tag is \<open>ER\<close>. The record buffer of a block of lines is the dictionary
  \<open>current\<close> that the parser holds after reading the block from a fresh state. The
  fields of a block are its tag lines in source order, each with the text of the
  continuation lines that follow it; \<open>tag_values\<close> are the values one tag has in a block,
  first occurrence first.
\<close>

definition is_er_line :: "string \<Rightarrow> bool" where
  "is_er_line raw \<longleftrightarrow>
     (case tag_line (rstrip_crlf raw) of Some (t, v) \<Rightarrow> strip t = ''ER'' | None \<Rightarrow> False)"

definition record_buffer :: "string list \<Rightarrow> py_error + ris_record" where
  "record_buffer body =
     (case process_lines initial_state body of
        Inl e \<Rightarrow> Inl e
      | Inr st \<Rightarrow> Inr (current st))"

definition field_step :: "(string \<times> string) list \<Rightarrow> string \<Rightarrow> (string \<times> string) list" where
  "field_step fs raw =
     (let line = rstrip_crlf raw in
      case tag_line line of
        Some (t, v) \<Rightarrow> fs @ [(strip t, strip v)]
      | None \<Rightarrow>
          if fs = [] \<or> strip line = [] then fs
          else butlast fs @ [(fst (last fs), strip (snd (last fs) @ '' '' @ strip line))])"

definition block_fields :: "string list \<Rightarrow> (string \<times> string) list" where
  "block_fields body = foldl field_step [] body"

definition tag_values :: "string \<Rightarrow> string list \<Rightarrow> string list" where
  "tag_values t body = map snd (filter (\<lambda>f. fst f = t) (block_fields body))"

fun stored :: "string list \<Rightarrow> ris_value option" where
  "stored [] = None"
| "stored [v] = Some (Scalar v)"
| "stored vs = Some (Lst vs)"

text \<open>
  The terminated blocks of an input: for each end-of-record line, the lines that stand
  between it and the end-of-record line before it (or the start of the input). The lines
  after the last end-of-record line belong to no terminated block. The record blocks are
  the terminated blocks whose record buffer is not empty.
\<close>

fun terminated_blocks :: "string list \<Rightarrow> string list \<Rightarrow> string list list" where
  "terminated_blocks acc [] = []"
| "terminated_blocks acc (raw # raws) =
     (if is_er_line raw then acc # terminated_blocks [] raws
      else terminated_blocks (acc @ [raw]) raws)"

definition record_blocks :: "string list \<Rightarrow> string list list" where
  "record_blocks raws = filter (\<lambda>b. record_buffer b \<noteq> Inr []) (terminated_blocks [] raws)"


text \<open>The relation between the fields read so far and the state of the parser.\<close>

definition rel :: "(string \<times> string) list \<Rightarrow> ris_record \<Rightarrow> string option \<Rightarrow> bool" where
  "rel fs cur lt \<longleftrightarrow>
     lt = (if fs = [] then None else Some (fst (last fs))) \<and>
     (\<forall>f \<in> set fs. fst f \<noteq> []) \<and>
     (\<forall>t. map_of cur t = stored (map snd (filter (\<lambda>f. fst f = t) fs)))"

definition fresh :: "ris_record list \<Rightarrow> parser_state" where
  "fresh R = \<lparr>records = R, current = [], last_tag = None\<rparr>"

section \<open>Rows and frames\<close>

text \<open>
  A row has the keys that \<open>ris_records_to_rows\<close> writes; the orchestrator adds the column
  \<open>_group\<close>. A data frame is modelled by the sequence of its rows, in index order.
\<close>

record row =
  Title :: string
  Year :: string
  Index :: string
  DOI :: string
  Author_Surname :: string
  Author_Name :: string
  source_file :: string

record grouped_row = row +
  row_group :: string

section \<open>Deduplicator\<close>

text \<open>
  \<open>drop_duplicates(subset=..., keep="first")\<close>: a row goes when an earlier row of the
  frame has the same values in the columns of the subset.
\<close>

fun drop_duplicates_from :: "('r \<Rightarrow> 'k) \<Rightarrow> 'k list \<Rightarrow> 'r list \<Rightarrow> 'r list" where
  "drop_duplicates_from key seen [] = []"
| "drop_duplicates_from key seen (x # xs) =
     (if key x \<in> set seen then drop_duplicates_from key seen xs
      else x # drop_duplicates_from key (key x # seen) xs)"

definition drop_duplicates :: "('r \<Rightarrow> 'k) \<Rightarrow> 'r list \<Rightarrow> 'r list" where
  "drop_duplicates key xs = drop_duplicates_from key [] xs"

definition doi_nonempty :: "'a row_scheme \<Rightarrow> bool" where
  "doi_nonempty r \<longleftrightarrow> strip (DOI r) \<noteq> ''''"

definition triple :: "'a row_scheme \<Rightarrow> string \<times> string \<times> string" where
  "triple r = (Title r, Year r, Author_Name r)"

definition deduplicate :: "'a row_scheme list \<Rightarrow> 'a row_scheme list" where
  "deduplicate df =
     (if df = [] then df
      else
        (let df_with_doi = drop_duplicates DOI (filter doi_nonempty df);
             df_no_doi = drop_duplicates triple (filter (\<lambda>r. \<not> doi_nonempty r) df)
         in df_with_doi @ df_no_doi))"

text \<open>
  The rows of a sequence that are the first with their key: no earlier row of the
  sequence has the same key.
\<close>

definition first_per_key :: "('r \<Rightarrow> 'k) \<Rightarrow> 'r list \<Rightarrow> 'r list" where
  "first_per_key key xs =
     map (\<lambda>i. xs ! i) (filter (\<lambda>i. key (xs ! i) \<notin> key ` set (take i xs)) [0..<length xs])"

section \<open>Filter Engine\<close>

text \<open>
  \<open>year_ok\<close>, the closure of \<open>apply_filters\<close>: the year is trimmed and must satisfy
  \<open>str.isdigit\<close> (not empty, decimal digits and superscript digits only), or the row
  fails. Then \<open>int(y)\<close> reads it: it raises \<open>ValueError\<close> on a superscript digit and on
  more than 4300 digits, the limit of the conversion. The value must lie within the
  bounds that are set.
\<close>

definition str_isdigit :: "string \<Rightarrow> bool" where
  "str_isdigit s \<longleftrightarrow> s \<noteq> [] \<and> list_all (\<lambda>c. isdigit c \<or> c \<in> set superscript_digits) s"

definition year_ok :: "int option \<Rightarrow> int option \<Rightarrow> string \<Rightarrow> py_error + bool" where
  "year_ok min_year max_year y0 =
     (let y = strip y0 in
      if \<not> str_isdigit y then Inr False
      else if \<not> list_all isdigit y \<or> 4300 < length y then Inl ValueError
      else
        (let yi = int (int_of_digits y) in
         if min_year \<noteq> None \<and> yi < the min_year then Inr False
         else if max_year \<noteq> None \<and> yi > the max_year then Inr False
         else Inr True))"

text \<open>
  \<open>out["Year"].apply(year_ok)\<close> calls \<open>year_ok\<close> on the years in order and stops at the first
  exception; \<open>out[mask]\<close> keeps the rows whose entry of the mask is true.
\<close>

fun year_mask :: "int option \<Rightarrow> int option \<Rightarrow> string list \<Rightarrow> py_error + bool list" where
  "year_mask min_year max_year [] = Inr []"
| "year_mask min_year max_year (y # ys) =
     (case year_ok min_year max_year y of
        Inl e \<Rightarrow> Inl e
      | Inr b \<Rightarrow>
          (case year_mask min_year max_year ys of
             Inl e \<Rightarrow> Inl e
           | Inr bs \<Rightarrow> Inr (b # bs)))"

definition select :: "'a list \<Rightarrow> bool list \<Rightarrow> 'a list" where
  "select xs keep = map fst (filter snd (zip xs keep))"

text \<open>\<open>sep.join(parts)\<close>.\<close>

fun join :: "string \<Rightarrow> string list \<Rightarrow> string" where
  "join sep [] = []"
| "join sep [x] = x"
| "join sep (x # y # ys) = x @ sep @ join sep (y # ys)"

definition matches_only_filter :: "'a row_scheme \<Rightarrow> string list \<Rightarrow> bool" where
  "matches_only_filter r terms =
     (if terms = [] then True
      else
        (let hay = lower (join '' '' [Title r, DOI r, Author_Name r, Index r])
         in list_all (\<lambda>t. contains (lower t) hay) terms))"

definition apply_filters ::
    "'a row_scheme list \<Rightarrow> int option \<Rightarrow> int option \<Rightarrow> string list
      \<Rightarrow> py_error + 'a row_scheme list" where
  "apply_filters df min_year max_year only_terms =
     (case (if min_year \<noteq> None \<or> max_year \<noteq> None
            then (case year_mask min_year max_year (map Year df) of
                    Inl e \<Rightarrow> Inl e
                  | Inr keep \<Rightarrow> Inr (select df keep))
            else Inr df) of
        Inl e \<Rightarrow> Inl e
      | Inr out \<Rightarrow>
          Inr (if only_terms \<noteq> []
               then filter (\<lambda>r. matches_only_filter r only_terms) out else out))"

text \<open>
  The two predicates in the words of the specification. A year passes when it is a
  non-empty string of digits whose value lies within the bounds that are set. The
  keywords pass when each term occurs, without regard to case, in the title, the DOI,
  the author name and the index joined by a blank.
\<close>

definition within_bounds :: "int option \<Rightarrow> int option \<Rightarrow> int \<Rightarrow> bool" where
  "within_bounds min_year max_year n \<longleftrightarrow>
     (case min_year of None \<Rightarrow> True | Some lo \<Rightarrow> lo \<le> n) \<and>
     (case max_year of None \<Rightarrow> True | Some hi \<Rightarrow> n \<le> hi)"

definition year_passes :: "int option \<Rightarrow> int option \<Rightarrow> string \<Rightarrow> bool" where
  "year_passes min_year max_year y \<longleftrightarrow>
     y \<noteq> [] \<and> list_all isdigit y \<and> within_bounds min_year max_year (int (int_of_digits y))"

definition keywords_pass :: "string list \<Rightarrow> 'a row_scheme \<Rightarrow> bool" where
  "keywords_pass terms r \<longleftrightarrow>
     list_all (\<lambda>t. contains (lower t)
                 (lower (Title r @ '' '' @ DOI r @ '' '' @ Author_Name r @ '' '' @ Index r))) terms"

definition bound_set :: "int option \<Rightarrow> int option \<Rightarrow> bool" where
  "bound_set min_year max_year \<longleftrightarrow> min_year \<noteq> None \<or> max_year \<noteq> None"

text \<open>The filter as the specification words it.\<close>

definition stated_filter ::
    "'a row_scheme list \<Rightarrow> int option \<Rightarrow> int option \<Rightarrow> string list \<Rightarrow> 'a row_scheme list" where
  "stated_filter df min_year max_year only_terms =
     filter (\<lambda>r. (if bound_set min_year max_year then year_passes min_year max_year (Year r) else True)
                 \<and> keywords_pass only_terms r) df"

text \<open>
  A year is plain when it carries no white space at its ends and, if \<open>str.isdigit\<close> holds
  of it, consists of at most 4300 decimal digits. The years the Field Resolver writes
  are plain: each is empty or made of four decimal digits.
\<close>

definition plain_year :: "string \<Rightarrow> bool" where
  "plain_year y \<longleftrightarrow> strip y = y \<and> (\<not> str_isdigit y \<or> (list_all isdigit y \<and> length y \<le> 4300))"

text \<open>
  \<open>parse_year_range\<close>. The pattern is \<open>^\s*(\d{4})\s*-\s*(\d{4})\s*$\<close>, matched on the
  trimmed input; white space and digits are disjoint classes, so each \<open>\s*\<close> takes all
  the white space there is.
\<close>

definition digits4 :: "string \<Rightarrow> (string \<times> string) option" where
  "digits4 s = (if 4 \<le> length s \<and> list_all isdigit (take 4 s) then Some (take 4 s, drop 4 s) else None)"

definition year_range_match :: "string \<Rightarrow> (string \<times> string) option" where
  "year_range_match s =
     (case digits4 (dropWhile isspace s) of
        None \<Rightarrow> None
      | Some (y1, r1) \<Rightarrow>
          (case dropWhile isspace r1 of
             [] \<Rightarrow> None
           | c # r2 \<Rightarrow>
               if c = CHR ''-'' then
                 (case digits4 (dropWhile isspace r2) of
                    None \<Rightarrow> None
                  | Some (y2, r3) \<Rightarrow> if dropWhile isspace r3 = [] then Some (y1, y2) else None)
               else None))"

definition parse_year_range :: "string \<Rightarrow> py_error + (int option \<times> int option)" where
  "parse_year_range s0 =
     (let s = strip s0 in
      if s = [] then Inr (None, None)
      else
        (case year_range_match s of
           None \<Rightarrow> Inl ValueError
         | Some (a, b) \<Rightarrow>
             (let y1 = int (int_of_digits a); y2 = int (int_of_digits b) in
              if y1 > y2 then Inr (Some y2, Some y1) else Inr (Some y1, Some y2))))"

text \<open>
  The form the specification words: four digits, a hyphen, four digits, with white space
  around the whole at most.
\<close>

definition four_digits :: "string \<Rightarrow> bool" where
  "four_digits a \<longleftrightarrow> length a = 4 \<and> list_all isdigit a"

definition stated_year_range_form :: "string \<Rightarrow> bool" where
  "stated_year_range_form s \<longleftrightarrow>
     (let t = strip s in
      length t = 9 \<and> four_digits (take 4 t) \<and> t ! 4 = CHR ''-'' \<and> four_digits (drop 5 t))"

section \<open>Field Resolver\<close>

text \<open>
  \<open>year_from_any\<close>. The value of a tag is its first element when it is a list, and the
  empty string when the tag is absent or the list is empty. \<open>re.search\<close> with the pattern
  \<open>\b(19|20)\d{2}\b\<close> tries every position from the left; \<open>year_at\<close> is the match at one
  position, given the character before it: the year starts a word and ends one.
\<close>

fun first_value :: "ris_value option \<Rightarrow> string" where
  "first_value None = ''''"
| "first_value (Some (Scalar s)) = s"
| "first_value (Some (Lst [])) = ''''"
| "first_value (Some (Lst (x # xs))) = x"

definition year_at :: "char option \<Rightarrow> string \<Rightarrow> bool" where
  "year_at prev s \<longleftrightarrow>
     (case prev of None \<Rightarrow> True | Some p \<Rightarrow> \<not> isword p) \<and>
     4 \<le> length s \<and> (take 2 s = ''19'' \<or> take 2 s = ''20'') \<and>
     isdigit (s ! 2) \<and> isdigit (s ! 3) \<and>
     (length s = 4 \<or> \<not> isword (s ! 4))"

fun year_search :: "char option \<Rightarrow> string \<Rightarrow> string option" where
  "year_search prev [] = None"
| "year_search prev (c # cs) =
     (if year_at prev (c # cs) then Some (take 4 (c # cs)) else year_search (Some c) cs)"

fun year_from_tags :: "ris_record \<Rightarrow> string list \<Rightarrow> string" where
  "year_from_tags r [] = ''''"
| "year_from_tags r (k # ks) =
     (let v = strip (first_value (map_of r k)) in
      if v \<noteq> [] then
        (case year_search None v of
           Some m \<Rightarrow> m
         | None \<Rightarrow> year_from_tags r ks)
      else year_from_tags r ks)"

definition year_from_any :: "ris_record \<Rightarrow> string" where
  "year_from_any r = year_from_tags r [''PY'', ''Y1'', ''DA'', ''DP'']"

text \<open>
  The search as the specification words it: the first place where four digits beginning
  with 19 or 20 stand, whatever stands around them.
\<close>

definition year_digits :: "string \<Rightarrow> bool" where
  "year_digits s \<longleftrightarrow>
     4 \<le> length s \<and> (take 2 s = ''19'' \<or> take 2 s = ''20'') \<and> isdigit (s ! 2) \<and> isdigit (s ! 3)"

fun stated_year_search :: "string \<Rightarrow> string option" where
  "stated_year_search [] = None"
| "stated_year_search (c # cs) =
     (if year_digits (c # cs) then Some (take 4 (c # cs)) else stated_year_search cs)"

text \<open>
  Position \<open>i\<close> of \<open>v\<close> holds a year standing as a whole word: four digits beginning with
  19 or 20, with no word character right before or right after them.
\<close>

definition whole_word_year :: "string \<Rightarrow> nat \<Rightarrow> bool" where
  "whole_word_year v i \<longleftrightarrow>
     year_digits (drop i v) \<and>
     (i = 0 \<or> \<not> isword (v ! (i - 1))) \<and>
     (i + 4 = length v \<or> \<not> isword (v ! (i + 4)))"

text \<open>
  \<open>index_from_record\<close>. The provider map is a \<open>dict\<close> literal; its items come in the order
  written.
\<close>

definition PROVIDER_MAP :: "(string \<times> string) list" where
  "PROVIDER_MAP =
     [(''ieeexplore.ieee.org'', ''IEEE Xplore''),
      (''sciencedirect.com'', ''ScienceDirect''),
      (''webofscience.com'', ''Web of Science''),
      (''link.springer.com'', ''SpringerLink''),
      (''springer.com'', ''SpringerLink''),
      (''onlinelibrary.wiley.com'', ''Wiley Online Library''),
      (''wiley.com'', ''Wiley Online Library''),
      (''pubmed.ncbi.nlm.nih.gov'', ''PubMed''),
      (''dl.acm.org'', ''ACM Digital Library''),
      (''acm.org'', ''ACM Digital Library''),
      (''tandfonline.com'', ''Taylor & Francis''),
      (''nature.com'', ''Nature'')]"

text \<open>The loop \<open>for k, v in PROVIDER_MAP.items(): if k in host: return v\<close>.\<close>

fun provider_lookup :: "string \<Rightarrow> (string \<times> string) list \<Rightarrow> string option" where
  "provider_lookup host [] = None"
| "provider_lookup host ((k, v) # kvs) = (if contains k host then Some v else provider_lookup host kvs)"

text \<open>
  Truth value and \<open>str\<close> of a tag value. \<open>str\<close> of a list is the bracketed list of the
  \<open>repr\<close> of its elements: quoted, with the quote, the backslash and the characters that
  are not printable (the control characters, \<open>0xA0\<close> and \<open>0xAD\<close>) escaped.
\<close>

fun truthy :: "ris_value \<Rightarrow> bool" where
  "truthy (Scalar s) = (s \<noteq> [])"
| "truthy (Lst vs) = (vs \<noteq> [])"

definition hex_digit :: "nat \<Rightarrow> char" where
  "hex_digit n = ''0123456789abcdef'' ! (n mod 16)"

definition repr_char :: "char \<Rightarrow> char \<Rightarrow> string" where
  "repr_char quote c =
     (if c = quote \<or> c = CHR 0x5C then [CHR 0x5C, c]
      else if c = CHR 0x09 then [CHR 0x5C, CHR ''t'']
      else if c = CHR 0x0A then [CHR 0x5C, CHR ''n'']
      else if c = CHR 0x0D then [CHR 0x5C, CHR ''r'']
      else if (of_char c :: nat) < 32 \<or> (127 \<le> (of_char c :: nat) \<and> (of_char c :: nat) \<le> 160) \<or>
              c = CHR 0xAD
        then [CHR 0x5C, CHR ''x'', hex_digit (of_char c div 16), hex_digit (of_char c)]
      else [c])"

definition py_repr :: "string \<Rightarrow> string" where
  "py_repr s =
     (let quote = (if CHR 0x27 \<in> set s \<and> CHR 0x22 \<notin> set s then CHR 0x22 else CHR 0x27)
      in [quote] @ concat (map (repr_char quote) s) @ [quote])"

fun py_str :: "ris_value \<Rightarrow> string" where
  "py_str (Scalar s) = s"
| "py_str (Lst vs) = ''['' @ join '', '' (map py_repr vs) @ '']''"

text \<open>\<open>doi = r.get("DO") or r.get("DOI") or ""\<close>, then \<open>str(doi)\<close>.\<close>

definition doi_text :: "ris_record \<Rightarrow> string" where
  "doi_text r =
     (case map_of r ''DO'' of
        Some v \<Rightarrow> if truthy v then py_str v
                  else (case map_of r ''DOI'' of
                          Some w \<Rightarrow> if truthy w then py_str w else ''''
                        | None \<Rightarrow> '''')
      | None \<Rightarrow> (case map_of r ''DOI'' of
                   Some w \<Rightarrow> if truthy w then py_str w else ''''
                 | None \<Rightarrow> ''''))"

definition doi_prefix_label :: "string \<Rightarrow> string option" where
  "doi_prefix_label doi =
     (if prefix ''10.1109'' doi then Some ''IEEE Xplore''
      else if prefix ''10.1016'' doi then Some ''ScienceDirect''
      else if prefix ''10.1007'' doi then Some ''SpringerLink''
      else if prefix ''10.1002'' doi then Some ''Wiley Online Library''
      else if prefix ''10.1145'' doi then Some ''ACM Digital Library''
      else None)"

text \<open>
  The fallback: \<open>fallback.replace("_", " ").strip()\<close>, then
  \<open>re.sub(r"\bexports\b", "", fb, flags=re.IGNORECASE).strip()\<close>. The substitution scans
  from the left and goes on behind each word it removes.
\<close>

definition replace_underscores :: "string \<Rightarrow> string" where
  "replace_underscores s = map (\<lambda>c. if c = CHR ''_'' then CHR '' '' else c) s"

definition exports_at :: "char option \<Rightarrow> string \<Rightarrow> bool" where
  "exports_at prev s \<longleftrightarrow>
     (case prev of None \<Rightarrow> True | Some p \<Rightarrow> \<not> isword p) \<and>
     7 \<le> length s \<and> lower (take 7 s) = ''exports'' \<and>
     (length s = 7 \<or> \<not> isword (s ! 7))"

function remove_exports :: "char option \<Rightarrow> string \<Rightarrow> string" where
  "remove_exports prev [] = []"
| "remove_exports prev (c # cs) =
     (if exports_at prev (c # cs) then remove_exports (Some (cs ! 5)) (drop 6 cs)
      else c # remove_exports (Some c) cs)"
  by pat_completeness auto
termination
  by (relation "measure (\<lambda>(prev, s). length s)") auto

definition clean_fallback :: "string \<Rightarrow> string" where
  "clean_fallback fallback = strip (remove_exports None (strip (replace_underscores fallback)))"

text \<open>
  \<open>urlparse(ur).netloc\<close> and \<open>fb.title()\<close> belong to the standard library, and \<open>str.title\<close>
  maps some characters below 256 to characters from 256 on. \<open>index_from_record\<close> takes
  both as parameters: \<open>netloc\<close>, the network location of a URL or the exception raised,
  and \<open>title\<close>. Every exception of the \<open>try\<close> block is caught and the DOI is tried next.
\<close>

definition index_from_record ::
    "(string \<Rightarrow> py_error + string) \<Rightarrow> (string \<Rightarrow> string) \<Rightarrow> ris_record \<Rightarrow> string \<Rightarrow> string" where
  "index_from_record netloc title r fallback =
     (let ur = strip (first_value (map_of r ''UR''));
          hit = (if ur \<noteq> [] then
                   (case netloc ur of
                      Inl e \<Rightarrow> None
                    | Inr nl \<Rightarrow> provider_lookup (lower nl) PROVIDER_MAP)
                 else None)
      in case hit of
           Some v \<Rightarrow> v
         | None \<Rightarrow>
             (let doi = lower (strip (doi_text r));
                  dhit = (if doi \<noteq> [] then doi_prefix_label doi else None)
              in case dhit of
                   Some v \<Rightarrow> v
                 | None \<Rightarrow>
                     (let fb = clean_fallback fallback
                      in if fb \<noteq> [] then title fb else ''Unknown Source'')))"

text \<open>The tables of the specification: a hit is the first entry whose key fits.\<close>

definition DOI_PREFIXES :: "(string \<times> string) list" where
  "DOI_PREFIXES =
     [(''10.1109'', ''IEEE Xplore''),
      (''10.1016'', ''ScienceDirect''),
      (''10.1007'', ''SpringerLink''),
      (''10.1002'', ''Wiley Online Library''),
      (''10.1145'', ''ACM Digital Library'')]"

definition host_of :: "(string \<Rightarrow> py_error + string) \<Rightarrow> ris_record \<Rightarrow> string option" where
  "host_of netloc r =
     (let ur = strip (first_value (map_of r ''UR'')) in
      if ur = [] then None
      else (case netloc ur of Inl e \<Rightarrow> None | Inr nl \<Rightarrow> Some (lower nl)))"

text \<open>
  The other fields of a row. \<open>clean_doi\<close> trims and removes a leading \<open>http://doi.org/\<close> or
  \<open>https://doi.org/\<close> in any case (the pattern \<open>^https?://doi\.org/\<close>). The surname is the
  text before the first comma, or else the last word. \<open>get_first_from_tags\<close> returns the
  first trimmed value that is not empty, going through the tags in order and through the
  elements of a list value.
\<close>

definition clean_doi :: "string \<Rightarrow> string" where
  "clean_doi x0 =
     (let x = strip x0 in
      if lower (take 16 x) = ''https://doi.org/'' then strip (drop 16 x)
      else if lower (take 15 x) = ''http://doi.org/'' then strip (drop 15 x)
      else strip x)"

definition surname_from_author :: "string \<Rightarrow> string" where
  "surname_from_author author0 =
     (let author = strip author0 in
      if author = [] then ''''
      else if CHR '','' \<in> set author then strip (takeWhile (\<lambda>c. c \<noteq> CHR '','') author)
      else strip (rev (takeWhile (\<lambda>c. \<not> isspace c) (rev author))))"

fun first_nonempty :: "string list \<Rightarrow> string option" where
  "first_nonempty [] = None"
| "first_nonempty (x # xs) = (if strip x \<noteq> [] then Some (strip x) else first_nonempty xs)"

fun get_first_from_tags :: "ris_record \<Rightarrow> string list \<Rightarrow> string" where
  "get_first_from_tags r [] = ''''"
| "get_first_from_tags r (tag # tags) =
     (case map_of r tag of
        None \<Rightarrow> get_first_from_tags r tags
      | Some val \<Rightarrow>
          if \<not> truthy val then get_first_from_tags r tags
          else
            (case val of
               Lst xs \<Rightarrow>
                 (case first_nonempty xs of
                    Some x \<Rightarrow> x
                  | None \<Rightarrow> get_first_from_tags r tags)
             | Scalar s \<Rightarrow>
                 if strip s \<noteq> [] then strip s else get_first_from_tags r tags))"

definition record_to_row ::
    "(string \<Rightarrow> py_error + string) \<Rightarrow> (string \<Rightarrow> string) \<Rightarrow> string \<Rightarrow> string \<Rightarrow> ris_record
      \<Rightarrow> row" where
  "record_to_row netloc title source_name file_name r =
     (let title_text = get_first_from_tags r [''T1'', ''TI'', ''CT'', ''BT''];
          year = year_from_any r;
          doi = clean_doi (get_first_from_tags r [''DO'', ''DOI'']);
          first_author = get_first_from_tags r [''AU'', ''A1'', ''AF'', ''A2'', ''A3'', ''A4'', ''ED''];
          first_surname = surname_from_author first_author
      in \<lparr>Title = title_text, Year = year, Index = index_from_record netloc title r source_name,
          DOI = doi, Author_Surname = first_surname, Author_Name = first_author,
          source_file = file_name\<rparr>)"

definition ris_records_to_rows ::
    "(string \<Rightarrow> py_error + string) \<Rightarrow> (string \<Rightarrow> string) \<Rightarrow> ris_record list \<Rightarrow> string \<Rightarrow> string
      \<Rightarrow> row list" where
  "ris_records_to_rows netloc title recs source_name file_name =
     map (record_to_row netloc title source_name file_name) recs"

section \<open>Group Assigner\<close>

text \<open>
  \<open>FNAME_RE.match(name)\<close> for \<open>^(?P<num>\d+)\.\((?P<query>.+)\)_.+\.ris$\<close> with
  \<open>re.IGNORECASE\<close>. The digits are followed by a dot, so \<open>\d+\<close> takes all the digits
  there are. \<open>$\<close> stands at the end or before one closing line feed, and the four
  characters before it are the extension. Between \<open>.(\<close> and the extension no line feed
  may stand; the query is greedy, so it ends at the last \<open>)_\<close> that leaves a character
  before the extension.
\<close>

fun query_split :: "string \<Rightarrow> string \<Rightarrow> (string \<times> string) option" where
  "query_split pre [] = None"
| "query_split pre (c # cs) =
     (case query_split (pre @ [c]) cs of
        Some p \<Rightarrow> Some p
      | None \<Rightarrow>
          (case cs of
             [] \<Rightarrow> None
           | u # rest \<Rightarrow>
               if pre \<noteq> [] \<and> c = CHR '')'' \<and> u = CHR ''_'' \<and> rest \<noteq> []
               then Some (pre, rest) else None))"

definition fname_body_match :: "string \<Rightarrow> string option" where
  "fname_body_match r1 =
     (let e = (if r1 \<noteq> [] \<and> last r1 = NL then butlast r1 else r1);
          m = take (length e - 4) e
      in if 4 \<le> length e \<and> lower (drop (length e - 4) e) = ''.ris'' \<and> NL \<notin> set m
         then map_option fst (query_split [] m)
         else None)"

definition fname_match :: "string \<Rightarrow> (string \<times> string) option" where
  "fname_match name =
     (let num = takeWhile isdigit name in
      if num = [] then None
      else
        (case dropWhile isdigit name of
           d # p # r1 \<Rightarrow>
             if d = CHR ''.'' \<and> p = CHR ''(''
             then map_option (Pair num) (fname_body_match r1)
             else None
         | _ \<Rightarrow> None))"

definition extract_group_header :: "string \<Rightarrow> nat option \<times> string" where
  "extract_group_header name =
     (case fname_match name of
        Some (digits, query) \<Rightarrow>
          (let num = int_of_digits digits;
               header = str_of_nat num @ ''.('' @ query @ '')''
           in (Some num, header))
      | None \<Rightarrow> (None, ''FILE: '' @ name))"

text \<open>
  The grouping loop of \<open>build_grouped_excel_for_folder\<close>: \<open>groups\<close> maps a header to the
  number and the files of its group, \<open>order_keys\<close> lists the groups in the order of their
  first file. The append reads the entry the lines before have made sure exists.
\<close>

record group_state =
  groups :: "(string \<times> (nat option \<times> string list)) list"
  order_keys :: "(nat option \<times> string) list"

definition add_file :: "group_state \<Rightarrow> string \<Rightarrow> group_state" where
  "add_file st f =
     (let (num, header) = extract_group_header f;
          st1 = (if map_of (groups st) header = None
                 then st\<lparr>groups := AList.update header (num, []) (groups st),
                         order_keys := order_keys st @ [(num, header)]\<rparr>
                 else st)
      in st1\<lparr>groups := AList.map_entry header (\<lambda>(n, fs). (n, fs @ [f])) (groups st1)\<rparr>)"

text \<open>
  The key of \<open>order_keys.sort\<close>: \<open>(x[0] is None, x[0] if x[0] is not None else 10**9, x[1])\<close>,
  compared as Python compares tuples and strings, position by position. \<open>list.sort\<close> is
  stable, as \<open>sort_key\<close> is.
\<close>

definition order_key :: "nat option \<times> string \<Rightarrow> bool \<times> nat \<times> string" where
  "order_key x = (fst x = None, (case fst x of None \<Rightarrow> 10 ^ 9 | Some n \<Rightarrow> n), snd x)"

text \<open>The groups in the order the orchestrator walks them, each with its files.\<close>

definition file_groups :: "string list \<Rightarrow> (nat option \<times> string \<times> string list) list" where
  "file_groups files =
     (let st = foldl add_file \<lparr>groups = [], order_keys = []\<rparr> files
      in map (\<lambda>(num, header).
                (num, header, (case map_of (groups st) header of
                                 None \<Rightarrow> [] | Some (n, fs) \<Rightarrow> fs)))
             (sort_key order_key (order_keys st)))"

text \<open>
  The order of the specification: groups with a number first, by number and then by
  header; the groups without a number after them, by header.
\<close>

definition group_before :: "nat option \<times> string \<Rightarrow> nat option \<times> string \<Rightarrow> bool" where
  "group_before g1 g2 =
     (case (fst g1, fst g2) of
        (Some a, Some b) \<Rightarrow> a < b \<or> (a = b \<and> snd g1 < snd g2)
      | (Some a, None) \<Rightarrow> True
      | (None, Some b) \<Rightarrow> False
      | (None, None) \<Rightarrow> snd g1 < snd g2)"

section \<open>Pipeline Orchestrator\<close>

text \<open>
  \<open>build_grouped_excel_for_folder\<close>. The folder is given by its name, the names of its
  RIS files in the order \<open>sorted\<close> returns them, and the function \<open>read\<close> from a file name
  to the lines of the file. The result holds what the function writes and prints: the
  rows of the two sheets, the counters and the path of the output. A row of the grouped
  sheet is the list of its values in the order of \<open>OUT_COLS\<close>.

  \<open>pd.DataFrame(rows)\<close> of an empty list has no columns, and the concatenation of such
  frames has none but \<open>_group\<close>: then \<open>out["Year"]\<close> in \<open>apply_filters\<close> raises
  \<open>KeyError\<close> when a year bound is set.
\<close>

definition with_group :: "string \<Rightarrow> row \<Rightarrow> grouped_row" where
  "with_group header r =
     \<lparr>Title = Title r, Year = Year r, Index = Index r, DOI = DOI r,
      Author_Surname = Author_Surname r, Author_Name = Author_Name r,
      source_file = source_file r, row_group = header\<rparr>"

definition out_cols :: "'a row_scheme \<Rightarrow> string list" where
  "out_cols r = [Title r, Year r, Index r, DOI r, Author_Surname r, Author_Name r]"

definition header_row :: "string \<Rightarrow> string list" where
  "header_row header = [header, '''', '''', '''', '''', '''']"

definition blank_row :: "string list" where
  "blank_row = ['''', '''', '''', '''', '''', '''']"

record build_state =
  output_rows :: "string list list"
  raw_rows :: "grouped_row list list"
  total_parsed :: nat
  total_kept_after_filters :: nat
  total_dedup_removed :: nat

record build_result =
  grouped_results :: "string list list"
  raw_results :: "grouped_row list"
  files_seen :: nat
  parsed :: nat
  kept :: nat
  dedup_removed :: nat
  out_xlsx :: string

fun group_frames ::
    "(string \<Rightarrow> py_error + string) \<Rightarrow> (string \<Rightarrow> string) \<Rightarrow> (string \<Rightarrow> string list) \<Rightarrow> string \<Rightarrow> string \<Rightarrow>
     string list \<Rightarrow> py_error + grouped_row list list" where
  "group_frames netloc title read index_name header [] = Inr []"
| "group_frames netloc title read index_name header (f # fs) =
     (case parse_ris_file (read f) of
        Inl e \<Rightarrow> Inl e
      | Inr recs \<Rightarrow>
          (let rows = ris_records_to_rows netloc title recs index_name f;
               df = map (with_group header) rows
           in case group_frames netloc title read index_name header fs of
                Inl e \<Rightarrow> Inl e
              | Inr frames \<Rightarrow> Inr (df # frames)))"

definition process_group ::
    "(string \<Rightarrow> py_error + string) \<Rightarrow> (string \<Rightarrow> string) \<Rightarrow> (string \<Rightarrow> string list) \<Rightarrow> string \<Rightarrow>
     int option \<Rightarrow> int option \<Rightarrow> string list \<Rightarrow> bool \<Rightarrow>
     build_state \<Rightarrow> string \<times> string list \<Rightarrow> py_error + build_state" where
  "process_group netloc title read index_name min_year max_year only_terms do_dedup st g =
     (let header = fst g;
          st1 = st\<lparr>output_rows := output_rows st @ [header_row header]\<rparr>
      in case group_frames netloc title read index_name header (snd g) of
           Inl e \<Rightarrow> Inl e
         | Inr frames \<Rightarrow>
             (let df_group = concat frames;
                  st2 = st1\<lparr>total_parsed := total_parsed st1 + length df_group\<rparr>
              in if df_group = [] \<and> (min_year \<noteq> None \<or> max_year \<noteq> None) then Inl KeyError
                 else
                   (case apply_filters df_group min_year max_year only_terms of
                      Inl e \<Rightarrow> Inl e
                    | Inr filtered \<Rightarrow>
                        (let st3 = st2\<lparr>total_kept_after_filters :=
                                          total_kept_after_filters st2 + length filtered\<rparr>;
                             deduped = (if do_dedup \<and> filtered \<noteq> [] then deduplicate filtered
                                        else filtered);
                             st4 = (if do_dedup \<and> filtered \<noteq> []
                                    then st3\<lparr>total_dedup_removed :=
                                               total_dedup_removed st3 +
                                               (length filtered - length deduped)\<rparr>
                                    else st3)
                         in Inr (st4\<lparr>output_rows :=
                                        output_rows st4 @ map out_cols deduped @ [blank_row],
                                      raw_rows := raw_rows st4 @ [deduped]\<rparr>)))))"

fun process_groups ::
    "(build_state \<Rightarrow> string \<times> string list \<Rightarrow> py_error + build_state) \<Rightarrow>
     build_state \<Rightarrow> (string \<times> string list) list \<Rightarrow> py_error + build_state" where
  "process_groups step st [] = Inr st"
| "process_groups step st (g # gs) =
     (case step st g of
        Inl e \<Rightarrow> Inl e
      | Inr st' \<Rightarrow> process_groups step st' gs)"

text \<open>
  \<open>index_name or ris_dir.name\<close>, and the groups in the order the loop walks them, each
  with its header and files.
\<close>

definition index_name_of :: "string option \<Rightarrow> string \<Rightarrow> string" where
  "index_name_of index_name0 dir_name =
     (case index_name0 of None \<Rightarrow> dir_name | Some n \<Rightarrow> if n \<noteq> [] then n else dir_name)"

definition folder_groups :: "string list \<Rightarrow> (string \<times> string list) list" where
  "folder_groups files = map (\<lambda>(num, header, fs). (header, fs)) (file_groups files)"

definition build_grouped_excel_for_folder ::
    "(string \<Rightarrow> py_error + string) \<Rightarrow> (string \<Rightarrow> string) \<Rightarrow> (string \<Rightarrow> string list) \<Rightarrow> string \<Rightarrow> string list \<Rightarrow>
     string \<Rightarrow> string option \<Rightarrow> int option \<Rightarrow> int option \<Rightarrow> string list \<Rightarrow> bool \<Rightarrow>
     py_error + build_result option" where
  "build_grouped_excel_for_folder netloc title read dir_name files out_dir index_name0
       min_year max_year only_terms do_dedup =
     (if files = [] then Inr None
      else
        (let index_name = index_name_of index_name0 dir_name;
             path = out_dir @ ''/'' @ ''results_'' @ dir_name @ ''_grouped.xlsx'';
             order = folder_groups files
         in case process_groups
                   (process_group netloc title read index_name min_year max_year only_terms do_dedup)
                   \<lparr>output_rows = [], raw_rows = [], total_parsed = 0,
                    total_kept_after_filters = 0, total_dedup_removed = 0\<rparr> order of
              Inl e \<Rightarrow> Inl e
            | Inr st \<Rightarrow>
                Inr (Some \<lparr>grouped_results = output_rows st, raw_results = concat (raw_rows st),
                           files_seen = length files, parsed = total_parsed st,
                           kept = total_kept_after_filters st,
                           dedup_removed = total_dedup_removed st, out_xlsx = path\<rparr>)))"

text \<open>
  The rows one group hands to the filters, and what the group adds to the raw sheet when
  it is processed on its own: its rows that pass the filters, deduplicated if asked.
\<close>

definition file_rows ::
    "(string \<Rightarrow> py_error + string) \<Rightarrow> (string \<Rightarrow> string) \<Rightarrow> (string \<Rightarrow> string list) \<Rightarrow> string \<Rightarrow> string \<Rightarrow> row list" where
  "file_rows netloc title read index_name f =
     (case parse_ris_file (read f) of
        Inl e \<Rightarrow> []
      | Inr recs \<Rightarrow> ris_records_to_rows netloc title recs index_name f)"

definition group_rows ::
    "(string \<Rightarrow> py_error + string) \<Rightarrow> (string \<Rightarrow> string) \<Rightarrow> (string \<Rightarrow> string list) \<Rightarrow> string \<Rightarrow>
     string \<times> string list \<Rightarrow> grouped_row list" where
  "group_rows netloc title read index_name g =
     map (with_group (fst g)) (concat (map (file_rows netloc title read index_name) (snd g)))"

definition group_output ::
    "(string \<Rightarrow> py_error + string) \<Rightarrow> (string \<Rightarrow> string) \<Rightarrow> (string \<Rightarrow> string list) \<Rightarrow> string \<Rightarrow>
     int option \<Rightarrow> int option \<Rightarrow> string list \<Rightarrow> bool \<Rightarrow> string \<times> string list \<Rightarrow> grouped_row list" where
  "group_output netloc title read index_name min_year max_year only_terms do_dedup g =
     (let filtered = stated_filter (group_rows netloc title read index_name g) min_year max_year only_terms
      in if do_dedup then deduplicate filtered else filtered)"

text \<open>A state of the parser in which no tag holds an empty list.\<close>

definition no_empty_list :: "ris_record \<Rightarrow> bool" where
  "no_empty_list cur \<longleftrightarrow> (\<forall>t. map_of cur t \<noteq> Some (Lst []))"

section \<open>Properties of the Tag Parser\<close>

lemma tag_char_not_space: "is_tag_char c \<Longrightarrow> \<not> isspace c"
  by (auto simp: is_tag_char_def isspace_def ascii_upper_def isdigit_def upper_letters_def)

lemma tag_line_tag: "tag_line l = Some (t, v) \<Longrightarrow> strip t = t \<and> length t = 2"
  apply (cases l rule: tag_line.cases)
   apply (auto split: if_splits list.splits simp: strip_def lstrip_def rstrip_def tag_char_not_space)
  done

lemma stored_snoc:
  "stored (vs @ [v]) = (case stored vs of None \<Rightarrow> Some (Scalar v)
      | Some (Scalar x) \<Rightarrow> Some (Lst [x, v]) | Some (Lst ws) \<Rightarrow> Some (Lst (ws @ [v])))"
  by (cases vs rule: stored.cases) auto

lemma stored_Lst: "stored vs = Some (Lst ws) \<Longrightarrow> ws = vs \<and> vs \<noteq> []"
  by (cases vs rule: stored.cases) auto

lemma stored_Scalar: "stored vs = Some (Scalar x) \<Longrightarrow> vs = [x]"
  by (cases vs rule: stored.cases) auto

lemma stored_None: "stored vs = None \<Longrightarrow> vs = []"
  by (cases vs rule: stored.cases) auto

lemma stored_Cons_snoc: "stored (a # as @ [v]) = Some (Lst (a # as @ [v]))"
  by (cases as) auto

lemma rel_add_value:
  assumes "rel fs cur lt" "t \<noteq> []"
  shows "rel (fs @ [(t, v)]) (add_value t v cur) (Some t)"
  using assms
  unfolding rel_def add_value_def
  by (auto simp: update_conv' stored_snoc split: option.splits ris_value.splits)

lemma rel_continuation:
  assumes "rel fs cur (Some lt)"
  shows "\<exists>cur'. continuation lt line cur = Inr cur' \<and>
           rel (butlast fs @ [(fst (last fs), strip (snd (last fs) @ '' '' @ strip line))]) cur' (Some lt)"
proof -
  from assms have ne: "fs \<noteq> []" and lt: "lt = fst (last fs)"
    by (auto simp: rel_def split: if_splits)
  then obtain fs0 vl where fs: "fs = fs0 @ [(lt, vl)]"
    by (metis append_butlast_last_id prod.collapse)
  let ?vs0 = "map snd (filter (\<lambda>f. fst f = lt) fs0)"
  from assms fs have m: "map_of cur lt = stored (?vs0 @ [vl])"
    by (simp add: rel_def)
  show ?thesis
  proof (cases "?vs0")
    case Nil
    with m have "map_of cur lt = Some (Scalar vl)" by simp
    then show ?thesis using assms fs Nil
      by (auto simp: continuation_def rel_def update_conv')
  next
    case (Cons a as)
    with m have "map_of cur lt = Some (Lst (?vs0 @ [vl]))" by (simp add: stored_Cons_snoc)
    then show ?thesis using assms fs Cons
      by (auto simp: continuation_def rel_def update_conv' stored_Cons_snoc)
  qed
qed

lemma not_er_step:
  assumes "\<not> is_er_line raw" "rel fs (current st) (last_tag st)"
  shows "\<exists>st'. process_line st raw = Inr st' \<and> records st' = records st \<and>
           rel (field_step fs raw) (current st') (last_tag st')"
proof (cases "tag_line (rstrip_crlf raw)")
  case None
  show ?thesis
  proof (cases "last_tag st")
    case N: None
    with assms(2) have "fs = []" by (auto simp: rel_def split: if_splits)
    with None N assms(2) show ?thesis
      by (simp add: process_line_def field_step_def)
  next
    case (Some lt)
    with assms(2) have ne: "fs \<noteq> []" "lt \<noteq> []"
      by (auto simp: rel_def split: if_splits)
    show ?thesis
    proof (cases "strip (rstrip_crlf raw) = []")
      case True
      with None Some assms(2) show ?thesis
        by (simp add: process_line_def field_step_def)
    next
      case False
      from rel_continuation[of fs "current st" lt "rstrip_crlf raw"] assms(2) Some
      obtain cur' where "continuation lt (rstrip_crlf raw) (current st) = Inr cur'"
        "rel (butlast fs @ [(fst (last fs), strip (snd (last fs) @ '' '' @ strip (rstrip_crlf raw)))]) cur' (Some lt)"
        by auto
      with None Some False ne show ?thesis
        by (simp add: process_line_def field_step_def)
    qed
  qed
next
  case (Some p)
  obtain t v where p: "p = (t, v)" by (cases p)
  from Some p have tt: "strip t = t" "length t = 2" using tag_line_tag by auto
  with assms(1) Some p have ner: "t \<noteq> ''ER''" by (simp add: is_er_line_def)
  from tt have "t \<noteq> []" by auto
  from rel_add_value[OF assms(2) this, of "strip v"] Some p ner tt show ?thesis
    by (simp add: process_line_def field_step_def Let_def)
qed

lemma er_step:
  assumes "is_er_line raw"
  shows "process_line st raw = Inr \<lparr>records = records st @ (if current st \<noteq> [] then [current st] else []),
                                      current = [], last_tag = None\<rparr>"
  using assms
  by (auto simp: is_er_line_def process_line_def Let_def start_new_def finish_one_def split: option.splits)

lemma process_lines_append:
  "process_lines st (xs @ ys) =
     (case process_lines st xs of Inl e \<Rightarrow> Inl e | Inr st' \<Rightarrow> process_lines st' ys)"
  by (induction xs arbitrary: st) (auto split: sum.splits)

lemma body_lines:
  assumes "\<forall>l \<in> set b. \<not> is_er_line l" "rel fs (current st) (last_tag st)"
  shows "\<exists>st'. process_lines st b = Inr st' \<and> records st' = records st \<and>
           rel (foldl field_step fs b) (current st') (last_tag st')"
  using assms
proof (induction b arbitrary: fs st)
  case Nil
  then show ?case by simp
next
  case (Cons l b)
  from Cons.prems obtain st1 where 1: "process_line st l = Inr st1" "records st1 = records st"
    "rel (field_step fs l) (current st1) (last_tag st1)"
    using not_er_step[of l fs st] by auto
  from Cons.IH[OF _ 1(3)] Cons.prems(1) 1(1,2) show ?case by auto
qed

lemma rel_initial: "rel [] [] None"
  by (simp add: rel_def)

lemma process_line_frame:
  assumes "\<not> is_er_line raw"
  shows "process_line (st\<lparr>records := R\<rparr>) raw =
           (case process_line st raw of Inl e \<Rightarrow> Inl e | Inr st' \<Rightarrow> Inr (st'\<lparr>records := R\<rparr>))"
  using assms
  by (auto simp: process_line_def is_er_line_def Let_def split: option.splits sum.splits)

lemma process_lines_frame:
  assumes "\<forall>l \<in> set b. \<not> is_er_line l"
  shows "process_lines (st\<lparr>records := R\<rparr>) b =
           (case process_lines st b of Inl e \<Rightarrow> Inl e | Inr st' \<Rightarrow> Inr (st'\<lparr>records := R\<rparr>))"
  using assms
proof (induction b arbitrary: st)
  case Nil
  then show ?case by simp
next
  case (Cons l b)
  then show ?case
    by (cases "process_line st l") (simp_all add: process_line_frame)
qed

lemma record_buffer_total:
  assumes "\<forall>l \<in> set b. \<not> is_er_line l"
  shows "\<exists>cur. record_buffer b = Inr cur \<and>
           (\<forall>t. map_of cur t = stored (tag_values t b))"
proof -
  have "rel [] (current initial_state) (last_tag initial_state)"
    by (simp add: initial_state_def rel_initial)
  from body_lines[OF assms this] show ?thesis
    by (auto simp: record_buffer_def rel_def tag_values_def block_fields_def)
qed

lemma body_from_fresh:
  assumes "\<forall>l \<in> set b. \<not> is_er_line l" "record_buffer b = Inr cur"
  shows "\<exists>lt. process_lines (fresh R) b = Inr \<lparr>records = R, current = cur, last_tag = lt\<rparr>"
proof -
  have f: "fresh R = initial_state\<lparr>records := R\<rparr>"
    by (simp add: fresh_def initial_state_def)
  from assms(2) obtain st where st: "process_lines initial_state b = Inr st" "current st = cur"
    by (auto simp: record_buffer_def split: sum.splits)
  have "process_lines (fresh R) b = Inr (st\<lparr>records := R\<rparr>)"
    unfolding f by (simp add: process_lines_frame[OF assms(1)] st)
  moreover have "st\<lparr>records := R\<rparr> = \<lparr>records = R, current = cur, last_tag = last_tag st\<rparr>"
    using st(2) by (cases st) simp
  ultimately show ?thesis by auto
qed

lemma block_from_fresh:
  assumes "\<forall>l \<in> set b. \<not> is_er_line l" "is_er_line e" "record_buffer b = Inr cur"
  shows "process_lines (fresh R) (b @ e # rest) =
           process_lines (fresh (R @ (if cur \<noteq> [] then [cur] else []))) rest"
proof -
  from body_from_fresh[OF assms(1,3), of R] obtain lt where
    "process_lines (fresh R) b = Inr \<lparr>records = R, current = cur, last_tag = lt\<rparr>" by auto
  then show ?thesis
    by (simp add: process_lines_append er_step[OF assms(2)] fresh_def)
qed

lemma blocks_from_fresh:
  assumes "length ers = length bodies"
    and "\<forall>e \<in> set ers. is_er_line e"
    and "\<forall>b \<in> set bodies. \<forall>l \<in> set b. \<not> is_er_line l"
    and "\<forall>l \<in> set tail. \<not> is_er_line l"
  shows "\<exists>bufs st. map record_buffer bodies = map Inr bufs \<and>
           process_lines (fresh R) (concat (map2 (\<lambda>b e. b @ [e]) bodies ers) @ tail) = Inr st \<and>
           records st = R @ filter (\<lambda>cur. cur \<noteq> []) bufs"
  using assms
proof (induction ers bodies arbitrary: R rule: list_induct2)
  case Nil
  from body_from_fresh[of tail _ R] record_buffer_total[OF Nil(3)] Nil(3)
  show ?case by fastforce
next
  case (Cons e ers b bodies)
  from Cons.prems have nb: "\<forall>l \<in> set b. \<not> is_er_line l" and e: "is_er_line e" by auto
  from record_buffer_total[OF nb] obtain cur where cur: "record_buffer b = Inr cur" by auto
  let ?R = "R @ (if cur \<noteq> [] then [cur] else [])"
  from Cons.IH[of ?R] Cons.prems obtain bufs st where
    ih: "map record_buffer bodies = map Inr bufs"
        "process_lines (fresh ?R) (concat (map2 (\<lambda>b e. b @ [e]) bodies ers) @ tail) = Inr st"
        "records st = ?R @ filter (\<lambda>cur. cur \<noteq> []) bufs"
    by auto
  have "process_lines (fresh R) (concat (map2 (\<lambda>b e. b @ [e]) (b # bodies) (e # ers)) @ tail) = Inr st"
    using block_from_fresh[OF nb e cur, of R] ih(2) by simp
  moreover have "map record_buffer (b # bodies) = map Inr (cur # bufs)"
    using cur ih(1) by simp
  moreover have "records st = R @ filter (\<lambda>cur. cur \<noteq> []) (cur # bufs)"
    using ih(3) by simp
  ultimately show ?case by blast
qed

lemma parse_blocks:
  assumes "length ers = length bodies"
    and "\<forall>e \<in> set ers. is_er_line e"
    and "\<forall>b \<in> set bodies. \<forall>l \<in> set b. \<not> is_er_line l"
    and "\<forall>l \<in> set tail. \<not> is_er_line l"
  shows "\<exists>bufs. map record_buffer bodies = map Inr bufs \<and>
           parse_ris_file (concat (map2 (\<lambda>b e. b @ [e]) bodies ers) @ tail)
             = Inr (filter (\<lambda>cur. cur \<noteq> []) bufs)"
proof -
  have "initial_state = fresh []" by (simp add: fresh_def initial_state_def)
  with blocks_from_fresh[OF assms, of "[]"] show ?thesis
    by (auto simp: parse_ris_file_def)
qed

lemma field_step_Nil: "field_step fs raw = [] \<longleftrightarrow> fs = [] \<and> tag_line (rstrip_crlf raw) = None"
  by (auto simp: field_step_def Let_def split: option.splits)

lemma foldl_field_step_Nil:
  "foldl field_step fs b = [] \<longleftrightarrow> fs = [] \<and> (\<forall>l \<in> set b. tag_line (rstrip_crlf l) = None)"
  by (induction b arbitrary: fs) (auto simp: field_step_Nil)

lemma stored_eq_None: "stored vs = None \<longleftrightarrow> vs = []"
  by (cases vs rule: stored.cases) auto

lemma record_buffer_empty:
  assumes "\<forall>l \<in> set b. \<not> is_er_line l"
  shows "record_buffer b = Inr [] \<longleftrightarrow> (\<forall>l \<in> set b. tag_line (rstrip_crlf l) = None)"
proof -
  from record_buffer_total[OF assms] obtain cur where
    cur: "record_buffer b = Inr cur" "\<And>t. map_of cur t = stored (tag_values t b)" by auto
  have "cur = [] \<longleftrightarrow> block_fields b = []"
  proof
    assume "cur = []"
    with cur(2) have a: "\<And>t. tag_values t b = []" by (metis map_of.simps(1) stored_eq_None)
    show "block_fields b = []"
    proof (cases "block_fields b")
      case Nil then show ?thesis .
    next
      case (Cons f fs)
      with a[of "fst f"] show ?thesis by (simp add: tag_values_def)
    qed
  next
    assume "block_fields b = []"
    then have n: "\<And>t. map_of cur t = None" using cur(2) by (simp add: tag_values_def)
    have "map_of cur = Map.empty" by (rule ext) (rule n)
    then show "cur = []" by (simp only: map_of_eq_empty_iff)
  qed
  with cur(1) show ?thesis by (simp add: block_fields_def foldl_field_step_Nil)
qed

lemma parse_terminated:
  assumes "length ers = length bodies"
    and "\<forall>e \<in> set ers. is_er_line e"
    and "\<forall>b \<in> set bodies. (\<forall>l \<in> set b. \<not> is_er_line l) \<and> record_buffer b \<noteq> Inr []"
    and "\<forall>l \<in> set tail. \<not> is_er_line l"
  shows "\<exists>recs. parse_ris_file (concat (map2 (\<lambda>b e. b @ [e]) bodies ers) @ tail) = Inr recs \<and>
           length recs = length bodies \<and>
           map Inr recs = map record_buffer bodies"
proof -
  from assms(3) have nb: "\<forall>b \<in> set bodies. \<forall>l \<in> set b. \<not> is_er_line l" by blast
  from parse_blocks[OF assms(1,2) nb assms(4)] obtain bufs where
    bufs: "map record_buffer bodies = map Inr bufs"
      "parse_ris_file (concat (map2 (\<lambda>b e. b @ [e]) bodies ers) @ tail)
         = Inr (filter (\<lambda>cur. cur \<noteq> []) bufs)" by blast
  have "\<forall>cur \<in> set bufs. cur \<noteq> []"
  proof
    fix cur assume "cur \<in> set bufs"
    then have "Inr cur \<in> set (map record_buffer bodies)" by (simp add: bufs(1))
    then obtain b where "b \<in> set bodies" "record_buffer b = Inr cur" by auto
    with assms(3) show "cur \<noteq> []" by auto
  qed
  then have "filter (\<lambda>cur. cur \<noteq> []) bufs = bufs" by (simp add: filter_id_conv)
  with bufs have "parse_ris_file (concat (map2 (\<lambda>b e. b @ [e]) bodies ers) @ tail) = Inr bufs"
    "length bufs = length bodies" "map Inr bufs = map record_buffer bodies"
    by (simp_all, metis length_map)
  then show ?thesis by blast
qed

text \<open>
  C1. An input made of \<open>N\<close> blocks, each closed by an end-of-record line and each
  leaving a non-empty record buffer, followed by lines without an end-of-record line,
  parses to exactly \<open>N\<close> records: the record buffers of the blocks, in source order. The
  lines after the last end-of-record line add no record, whatever they hold.
\<close>

theorem parse_ris_file_terminated_records:
  assumes "length ers = length bodies"
    and "\<forall>e \<in> set ers. is_er_line e"
    and "\<forall>b \<in> set bodies. (\<forall>l \<in> set b. \<not> is_er_line l) \<and> record_buffer b \<noteq> Inr []"
    and "\<forall>l \<in> set tail. \<not> is_er_line l"
  shows "\<exists>recs. parse_ris_file (concat (map2 (\<lambda>b e. b @ [e]) bodies ers) @ tail) = Inr recs \<and>
           length recs = length bodies \<and>
           map Inr recs = map record_buffer bodies"
  using assms by (rule parse_terminated)

theorem parse_ris_file_terminated_records_witness:
  "\<exists>recs. parse_ris_file (concat (map2 (\<lambda>b e. b @ [e])
             [[''TY  - JOUR'', ''AU  - Smith, J'', ''AU  - Doe, A''],
              [''junk'', ''TI - Second'', ''  wrapped'']]
             [''ER  - '', ''ER-'']) @ [''TY  - JOUR'', ''TI  - never closed'']) = Inr recs \<and>
           length recs = length [[''TY  - JOUR'', ''AU  - Smith, J'', ''AU  - Doe, A''],
                                 [''junk'', ''TI - Second'', ''  wrapped'']] \<and>
           map Inr recs = map record_buffer [[''TY  - JOUR'', ''AU  - Smith, J'', ''AU  - Doe, A''],
                                             [''junk'', ''TI - Second'', ''  wrapped'']]"
proof -
  have 1: "length [''ER  - '', ''ER-'']
             = length [[''TY  - JOUR'', ''AU  - Smith, J'', ''AU  - Doe, A''],
                       [''junk'', ''TI - Second'', ''  wrapped'']]"
    by simp
  have 2: "\<forall>e \<in> set [''ER  - '', ''ER-'']. is_er_line e"
    by code_simp
  have 3: "\<forall>b \<in> set [[''TY  - JOUR'', ''AU  - Smith, J'', ''AU  - Doe, A''],
                       [''junk'', ''TI - Second'', ''  wrapped'']].
             (\<forall>l \<in> set b. \<not> is_er_line l) \<and> record_buffer b \<noteq> Inr []"
    by code_simp
  have 4: "\<forall>l \<in> set [''TY  - JOUR'', ''TI  - never closed'']. \<not> is_er_line l"
    by code_simp
  from parse_ris_file_terminated_records[OF 1 2 3 4] show ?thesis .
qed

lemma terminated_blocks_split:
  assumes "\<forall>l \<in> set acc. \<not> is_er_line l"
  shows "\<exists>ers tail. length ers = length (terminated_blocks acc raws) \<and>
           (\<forall>e \<in> set ers. is_er_line e) \<and>
           (\<forall>b \<in> set (terminated_blocks acc raws). \<forall>l \<in> set b. \<not> is_er_line l) \<and>
           (\<forall>l \<in> set tail. \<not> is_er_line l) \<and>
           acc @ raws = concat (map2 (\<lambda>b e. b @ [e]) (terminated_blocks acc raws) ers) @ tail"
  using assms
proof (induction raws arbitrary: acc)
  case Nil
  have "length [] = length (terminated_blocks acc []) \<and>
        (\<forall>e \<in> set ([] :: string list). is_er_line e) \<and>
        (\<forall>b \<in> set (terminated_blocks acc []). \<forall>l \<in> set b. \<not> is_er_line l) \<and>
        (\<forall>l \<in> set acc. \<not> is_er_line l) \<and>
        acc @ [] = concat (map2 (\<lambda>b e. b @ [e]) (terminated_blocks acc []) []) @ acc"
    using Nil by simp
  then show ?case by blast
next
  case (Cons raw raws)
  show ?case
  proof (cases "is_er_line raw")
    case True
    from Cons.IH[of "[]"] obtain ers tail where
      ih: "length ers = length (terminated_blocks [] raws)"
          "\<forall>e \<in> set ers. is_er_line e"
          "\<forall>b \<in> set (terminated_blocks [] raws). \<forall>l \<in> set b. \<not> is_er_line l"
          "\<forall>l \<in> set tail. \<not> is_er_line l"
          "[] @ raws = concat (map2 (\<lambda>b e. b @ [e]) (terminated_blocks [] raws) ers) @ tail"
      by auto
    have "length (raw # ers) = length (terminated_blocks acc (raw # raws)) \<and>
          (\<forall>e \<in> set (raw # ers). is_er_line e) \<and>
          (\<forall>b \<in> set (terminated_blocks acc (raw # raws)). \<forall>l \<in> set b. \<not> is_er_line l) \<and>
          (\<forall>l \<in> set tail. \<not> is_er_line l) \<and>
          acc @ raw # raws
            = concat (map2 (\<lambda>b e. b @ [e]) (terminated_blocks acc (raw # raws)) (raw # ers)) @ tail"
      using True ih Cons.prems by simp
    then show ?thesis by blast
  next
    case False
    with Cons.prems have "\<forall>l \<in> set (acc @ [raw]). \<not> is_er_line l" by simp
    from Cons.IH[OF this] False show ?thesis by simp
  qed
qed

lemma nonempty_buffers:
  "map record_buffer bodies = map Inr bufs \<Longrightarrow>
     map Inr (filter (\<lambda>cur. cur \<noteq> []) bufs)
       = map record_buffer (filter (\<lambda>b. record_buffer b \<noteq> Inr []) bodies)"
proof (induction bodies arbitrary: bufs)
  case Nil
  then show ?case by simp
next
  case (Cons b bodies)
  then obtain c cs where "bufs = c # cs" "record_buffer b = Inr c" "map record_buffer bodies = map Inr cs"
    by (cases bufs) auto
  with Cons.IH[of cs] show ?case by simp
qed

lemma parse_record_blocks:
  "\<exists>recs. parse_ris_file raws = Inr recs \<and> map Inr recs = map record_buffer (record_blocks raws)"
proof -
  from terminated_blocks_split[of "[]" raws] obtain ers tail where
    s: "length ers = length (terminated_blocks [] raws)"
       "\<forall>e \<in> set ers. is_er_line e"
       "\<forall>b \<in> set (terminated_blocks [] raws). \<forall>l \<in> set b. \<not> is_er_line l"
       "\<forall>l \<in> set tail. \<not> is_er_line l"
       "raws = concat (map2 (\<lambda>b e. b @ [e]) (terminated_blocks [] raws) ers) @ tail"
    by auto
  from parse_blocks[OF s(1,2,3,4)] s(5) obtain bufs where
    b: "map record_buffer (terminated_blocks [] raws) = map Inr bufs"
       "parse_ris_file raws = Inr (filter (\<lambda>cur. cur \<noteq> []) bufs)"
    by auto
  from nonempty_buffers[OF b(1)] b(2) show ?thesis
    by (simp add: record_blocks_def)
qed

lemma record_blocks_no_er: "b \<in> set (record_blocks raws) \<Longrightarrow> \<forall>l \<in> set b. \<not> is_er_line l"
  using terminated_blocks_split[of "[]" raws] by (auto simp: record_blocks_def)

lemma stored_many: "1 < length vs \<Longrightarrow> stored vs = Some (Lst vs)"
  by (cases vs rule: stored.cases) auto

text \<open>
  C2. The parser returns on every input, and its records are those of the record blocks of
  the input, in order. In each record a tag with more than one value in its block is
  stored as the list of these values in source order, a tag with exactly one value as
  that scalar, and a tag with no value is absent.
\<close>

theorem repeated_tag_values_in_source_order:
  "\<exists>recs. parse_ris_file raws = Inr recs \<and>
     length recs = length (record_blocks raws) \<and>
     (\<forall>i < length recs. \<forall>t.
        (1 < length (tag_values t (record_blocks raws ! i)) \<longrightarrow>
           map_of (recs ! i) t = Some (Lst (tag_values t (record_blocks raws ! i)))) \<and>
        (\<forall>v. tag_values t (record_blocks raws ! i) = [v] \<longrightarrow> map_of (recs ! i) t = Some (Scalar v)) \<and>
        (tag_values t (record_blocks raws ! i) = [] \<longrightarrow> map_of (recs ! i) t = None))"
proof -
  from parse_record_blocks[of raws] obtain recs where
    recs: "parse_ris_file raws = Inr recs" "map Inr recs = map record_buffer (record_blocks raws)"
    by blast
  from recs(2) have len: "length recs = length (record_blocks raws)"
    by (metis length_map)
  have "\<forall>i < length recs. \<forall>t. map_of (recs ! i) t = stored (tag_values t (record_blocks raws ! i))"
  proof (intro allI impI)
    fix i t assume i: "i < length recs"
    with len have "record_blocks raws ! i \<in> set (record_blocks raws)" by simp
    then have "\<forall>l \<in> set (record_blocks raws ! i). \<not> is_er_line l" by (rule record_blocks_no_er)
    from record_buffer_total[OF this] obtain cur where
      cur: "record_buffer (record_blocks raws ! i) = Inr cur"
           "\<And>t. map_of cur t = stored (tag_values t (record_blocks raws ! i))"
      by blast
    from recs(2) len i have "Inr (recs ! i) = record_buffer (record_blocks raws ! i)"
      by (metis nth_map)
    with cur show "map_of (recs ! i) t = stored (tag_values t (record_blocks raws ! i))" by simp
  qed
  then have "\<forall>i < length recs. \<forall>t.
        (1 < length (tag_values t (record_blocks raws ! i)) \<longrightarrow>
           map_of (recs ! i) t = Some (Lst (tag_values t (record_blocks raws ! i)))) \<and>
        (\<forall>v. tag_values t (record_blocks raws ! i) = [v] \<longrightarrow> map_of (recs ! i) t = Some (Scalar v)) \<and>
        (tag_values t (record_blocks raws ! i) = [] \<longrightarrow> map_of (recs ! i) t = None)"
    by (simp add: stored_many)
  with recs(1) len show ?thesis by blast
qed

theorem repeated_tag_values_in_source_order_witness:
  "\<exists>recs. parse_ris_file
             [''preamble'', ''ER  - '', ''TY  - JOUR'', ''AU  - Smith, J'', ''TI  - A long'', '' title'',
              ''AU  - Doe, A'', ''    Jr.'', ''AU  - Roe, R'', ''ER  - '', ''TY  - never closed''] = Inr recs \<and>
           length recs = 1 \<and>
           map_of (recs ! 0) ''AU'' = Some (Lst [''Smith, J'', ''Doe, A Jr.'', ''Roe, R'']) \<and>
           map_of (recs ! 0) ''TI'' = Some (Scalar ''A long title'') \<and>
           map_of (recs ! 0) ''DO'' = None"
proof -
  let ?raws = "[''preamble'', ''ER  - '', ''TY  - JOUR'', ''AU  - Smith, J'', ''TI  - A long'', '' title'',
                ''AU  - Doe, A'', ''    Jr.'', ''AU  - Roe, R'', ''ER  - '', ''TY  - never closed'']"
  let ?b = "[''TY  - JOUR'', ''AU  - Smith, J'', ''TI  - A long'', '' title'', ''AU  - Doe, A'',
             ''    Jr.'', ''AU  - Roe, R'']"
  have rb: "record_blocks ?raws = [?b]"
    by code_simp
  have au: "tag_values ''AU'' ?b = [''Smith, J'', ''Doe, A Jr.'', ''Roe, R'']"
    by code_simp
  have ti: "tag_values ''TI'' ?b = [''A long title'']"
    by code_simp
  have do: "tag_values ''DO'' ?b = []"
    by code_simp
  from repeated_tag_values_in_source_order[of ?raws] obtain recs where
    r: "parse_ris_file ?raws = Inr recs"
       "length recs = length (record_blocks ?raws)"
       "\<forall>i < length recs. \<forall>t.
          (1 < length (tag_values t (record_blocks ?raws ! i)) \<longrightarrow>
             map_of (recs ! i) t = Some (Lst (tag_values t (record_blocks ?raws ! i)))) \<and>
          (\<forall>v. tag_values t (record_blocks ?raws ! i) = [v] \<longrightarrow> map_of (recs ! i) t = Some (Scalar v)) \<and>
          (tag_values t (record_blocks ?raws ! i) = [] \<longrightarrow> map_of (recs ! i) t = None)"
    by blast
  from r(2) have len: "length recs = 1"
    by (simp only: rb) simp
  with r(3) have a: "\<And>t. (1 < length (tag_values t ?b) \<longrightarrow>
                 map_of (recs ! 0) t = Some (Lst (tag_values t ?b))) \<and>
              (\<forall>v. tag_values t ?b = [v] \<longrightarrow> map_of (recs ! 0) t = Some (Scalar v)) \<and>
              (tag_values t ?b = [] \<longrightarrow> map_of (recs ! 0) t = None)"
    by (simp only: rb) simp
  from a[of "''AU''"] au have "map_of (recs ! 0) ''AU'' = Some (Lst [''Smith, J'', ''Doe, A Jr.'', ''Roe, R''])"
    by simp
  moreover from a[of "''TI''"] ti have "map_of (recs ! 0) ''TI'' = Some (Scalar ''A long title'')"
    by simp
  moreover from a[of "''DO''"] do have "map_of (recs ! 0) ''DO'' = None"
    by simp
  ultimately show ?thesis using r(1) len by blast
qed
section \<open>Properties of the Deduplicator\<close>

lemma drop_duplicates_from_first:
  "drop_duplicates_from key seen xs =
     map (\<lambda>i. xs ! i) (filter (\<lambda>i. key (xs ! i) \<notin> set seen \<union> key ` set (take i xs)) [0..<length xs])"
proof (induction xs arbitrary: seen)
  case Nil
  then show ?case by simp
next
  case (Cons x xs)
  have idx: "[0..<length (x # xs)] = 0 # map Suc [0..<length xs]"
    by (simp add: upt_conv_Cons map_Suc_upt del: upt_Suc)
  show ?case
    unfolding idx
    by (auto simp: Cons.IH filter_map comp_def
        intro!: arg_cong[where f = "map ((!) xs)"] filter_cong)
qed

lemma drop_duplicates_first: "drop_duplicates key xs = first_per_key key xs"
  by (simp add: drop_duplicates_def first_per_key_def drop_duplicates_from_first)

lemma drop_duplicates_from_subseq: "subseq (drop_duplicates_from key seen xs) xs"
  by (induction xs arbitrary: seen) auto

lemma drop_duplicates_subseq: "subseq (drop_duplicates key xs) xs"
  by (simp add: drop_duplicates_def drop_duplicates_from_subseq)

lemma drop_duplicates_from_set: "set (drop_duplicates_from key seen xs) \<subseteq> set xs"
  by (induction xs arbitrary: seen) auto

lemma drop_duplicates_set: "set (drop_duplicates key xs) \<subseteq> set xs"
  by (simp add: drop_duplicates_def drop_duplicates_from_set)

lemma drop_duplicates_from_keys:
  "key ` set (drop_duplicates_from key seen xs) \<inter> set seen = {} \<and>
   distinct (map key (drop_duplicates_from key seen xs))"
proof (induction xs arbitrary: seen)
  case Nil
  then show ?case by simp
next
  case (Cons x xs)
  from Cons.IH[of seen] Cons.IH[of "key x # seen"] show ?case by auto
qed

lemma drop_duplicates_from_id:
  "distinct (map key xs) \<Longrightarrow> key ` set xs \<inter> set seen = {} \<Longrightarrow>
   drop_duplicates_from key seen xs = xs"
  by (induction xs arbitrary: seen) auto

lemma drop_duplicates_idem: "drop_duplicates key (drop_duplicates key xs) = drop_duplicates key xs"
  unfolding drop_duplicates_def
  using drop_duplicates_from_keys[of key "[]" xs]
  by (intro drop_duplicates_from_id) auto

lemma drop_duplicates_Nil_iff: "drop_duplicates key xs = [] \<longleftrightarrow> xs = []"
  by (cases xs) (simp_all add: drop_duplicates_def)

lemma filter_drop_duplicates:
  "filter P (drop_duplicates key (filter P xs)) = drop_duplicates key (filter P xs)"
  using drop_duplicates_set[of key "filter P xs"] by (auto simp: filter_id_conv)

lemma filter_out_drop_duplicates:
  "filter (\<lambda>x. \<not> P x) (drop_duplicates key (filter P xs)) = []"
  using drop_duplicates_set[of key "filter P xs"] by (auto simp: filter_empty_conv)

lemma deduplicate_parts:
  "deduplicate df = drop_duplicates DOI (filter doi_nonempty df) @
                    drop_duplicates triple (filter (\<lambda>r. \<not> doi_nonempty r) df)"
  by (simp add: deduplicate_def drop_duplicates_def)

lemma deduplicate_twice: "deduplicate (deduplicate df) = deduplicate df"
proof -
  let ?A = "drop_duplicates DOI (filter doi_nonempty df)"
  let ?B = "drop_duplicates triple (filter (\<lambda>r. \<not> doi_nonempty r) df)"
  have 1: "filter doi_nonempty (?A @ ?B) = ?A"
    using filter_drop_duplicates[of doi_nonempty DOI df]
      filter_out_drop_duplicates[of "\<lambda>r. \<not> doi_nonempty r" triple df]
    by simp
  have 2: "filter (\<lambda>r. \<not> doi_nonempty r) (?A @ ?B) = ?B"
    using filter_drop_duplicates[of "\<lambda>r. \<not> doi_nonempty r" triple df]
      filter_out_drop_duplicates[of doi_nonempty DOI df]
    by simp
  have "deduplicate (?A @ ?B) = drop_duplicates DOI ?A @ drop_duplicates triple ?B"
    unfolding deduplicate_parts[of "?A @ ?B"] 1 2 ..
  then show ?thesis
    by (simp add: deduplicate_parts[of df] drop_duplicates_idem)
qed

text \<open>
  C5. \<open>deduplicate\<close> splits the rows into those whose trimmed DOI is not empty and the
  others; of the first it keeps each row that is the first with its DOI, of the others
  each row that is the first with its triple of title, year and author name. The result
  is the first part followed by the second, each in the order of the input. The four
  rows of the example, two with the DOI \<open>10.1/A\<close> and two without DOI that agree on the
  triple, give two rows.
\<close>

theorem deduplicate_keeps_first_per_key:
  "deduplicate df = first_per_key DOI (filter doi_nonempty df) @
                    first_per_key triple (filter (\<lambda>r. \<not> doi_nonempty r) df) \<and>
   subseq (first_per_key DOI (filter doi_nonempty df)) df \<and>
   subseq (first_per_key triple (filter (\<lambda>r. \<not> doi_nonempty r) df)) df \<and>
   length (deduplicate
     [a\<lparr>DOI := ''10.1/A''\<rparr>, b\<lparr>DOI := ''10.1/A''\<rparr>,
      c\<lparr>DOI := '''', Title := ''T'', Year := ''2020'', Author_Name := ''X''\<rparr>,
      d\<lparr>DOI := '''', Title := ''T'', Year := ''2020'', Author_Name := ''X''\<rparr>]) = 2"
proof (intro conjI)
  show "deduplicate df = first_per_key DOI (filter doi_nonempty df) @
                    first_per_key triple (filter (\<lambda>r. \<not> doi_nonempty r) df)"
    by (simp add: deduplicate_parts drop_duplicates_first)
  have "subseq (drop_duplicates DOI (filter doi_nonempty df)) (filter doi_nonempty df)"
    by (rule drop_duplicates_subseq)
  then show "subseq (first_per_key DOI (filter doi_nonempty df)) df"
    unfolding drop_duplicates_first using subseq_filter_left subseq_order.order_trans by blast
  have "subseq (drop_duplicates triple (filter (\<lambda>r. \<not> doi_nonempty r) df))
          (filter (\<lambda>r. \<not> doi_nonempty r) df)"
    by (rule drop_duplicates_subseq)
  then show "subseq (first_per_key triple (filter (\<lambda>r. \<not> doi_nonempty r) df)) df"
    unfolding drop_duplicates_first using subseq_filter_left subseq_order.order_trans by blast
  have "strip ''10.1/A'' \<noteq> ''''"
    by (simp add: strip_def lstrip_def rstrip_def isspace_def)
  moreover have "strip '''' = ''''"
    by (simp add: strip_def lstrip_def rstrip_def)
  ultimately show "length (deduplicate
     [a\<lparr>DOI := ''10.1/A''\<rparr>, b\<lparr>DOI := ''10.1/A''\<rparr>,
      c\<lparr>DOI := '''', Title := ''T'', Year := ''2020'', Author_Name := ''X''\<rparr>,
      d\<lparr>DOI := '''', Title := ''T'', Year := ''2020'', Author_Name := ''X''\<rparr>]) = 2"
    by (simp add: deduplicate_def drop_duplicates_def doi_nonempty_def triple_def)
qed

theorem deduplicate_keeps_first_per_key_witness:
  "deduplicate
     [\<lparr>Title = ''T'', Year = ''2020'', Index = ''Scopus'', DOI = '' '', Author_Surname = ''X'',
       Author_Name = ''X'', source_file = ''a.ris''\<rparr>,
      \<lparr>Title = ''U'', Year = ''2019'', Index = ''Scopus'', DOI = ''10.1/A'', Author_Surname = ''Y'',
       Author_Name = ''Y'', source_file = ''a.ris''\<rparr>,
      \<lparr>Title = ''T'', Year = ''2020'', Index = ''PubMed'', DOI = '''', Author_Surname = ''Z'',
       Author_Name = ''X'', source_file = ''b.ris''\<rparr>,
      \<lparr>Title = ''V'', Year = ''2018'', Index = ''PubMed'', DOI = ''10.1/A'', Author_Surname = ''W'',
       Author_Name = ''W'', source_file = ''b.ris''\<rparr>]
   = [\<lparr>Title = ''U'', Year = ''2019'', Index = ''Scopus'', DOI = ''10.1/A'', Author_Surname = ''Y'',
       Author_Name = ''Y'', source_file = ''a.ris''\<rparr>,
      \<lparr>Title = ''T'', Year = ''2020'', Index = ''Scopus'', DOI = '' '', Author_Surname = ''X'',
       Author_Name = ''X'', source_file = ''a.ris''\<rparr>]"
proof -
  let ?df = "[\<lparr>Title = ''T'', Year = ''2020'', Index = ''Scopus'', DOI = '' '', Author_Surname = ''X'',
       Author_Name = ''X'', source_file = ''a.ris''\<rparr>,
      \<lparr>Title = ''U'', Year = ''2019'', Index = ''Scopus'', DOI = ''10.1/A'', Author_Surname = ''Y'',
       Author_Name = ''Y'', source_file = ''a.ris''\<rparr>,
      \<lparr>Title = ''T'', Year = ''2020'', Index = ''PubMed'', DOI = '''', Author_Surname = ''Z'',
       Author_Name = ''X'', source_file = ''b.ris''\<rparr>,
      \<lparr>Title = ''V'', Year = ''2018'', Index = ''PubMed'', DOI = ''10.1/A'', Author_Surname = ''W'',
       Author_Name = ''W'', source_file = ''b.ris''\<rparr>]"
  have "deduplicate ?df = first_per_key DOI (filter doi_nonempty ?df) @
                    first_per_key triple (filter (\<lambda>r. \<not> doi_nonempty r) ?df)"
    using deduplicate_keeps_first_per_key[of ?df] by (rule conjunct1)
  also have "\<dots> = [?df ! 1, ?df ! 0]"
    by code_simp
  finally show ?thesis by simp
qed

text \<open>
  C9. Deduplication is idempotent: a second application returns the rows of the first,
  in the same order.
\<close>

theorem deduplicate_idempotent: "deduplicate (deduplicate df) = deduplicate df"
  by (rule deduplicate_twice)

theorem deduplicate_idempotent_witness:
  "deduplicate (deduplicate
     [\<lparr>Title = ''T'', Year = ''2020'', Index = ''Scopus'', DOI = '''', Author_Surname = ''X'',
       Author_Name = ''X'', source_file = ''a.ris''\<rparr>,
      \<lparr>Title = ''U'', Year = ''2019'', Index = ''Scopus'', DOI = ''10.1/A'', Author_Surname = ''Y'',
       Author_Name = ''Y'', source_file = ''a.ris''\<rparr>,
      \<lparr>Title = ''T'', Year = ''2020'', Index = ''PubMed'', DOI = '''', Author_Surname = ''Z'',
       Author_Name = ''X'', source_file = ''b.ris''\<rparr>])
   = deduplicate
     [\<lparr>Title = ''T'', Year = ''2020'', Index = ''Scopus'', DOI = '''', Author_Surname = ''X'',
       Author_Name = ''X'', source_file = ''a.ris''\<rparr>,
      \<lparr>Title = ''U'', Year = ''2019'', Index = ''Scopus'', DOI = ''10.1/A'', Author_Surname = ''Y'',
       Author_Name = ''Y'', source_file = ''a.ris''\<rparr>,
      \<lparr>Title = ''T'', Year = ''2020'', Index = ''PubMed'', DOI = '''', Author_Surname = ''Z'',
       Author_Name = ''X'', source_file = ''b.ris''\<rparr>]"
  by (rule deduplicate_idempotent)

section \<open>Properties of the Filter Engine\<close>

lemma year_ok_plain:
  assumes "plain_year y"
  shows "year_ok min_year max_year y = Inr (year_passes min_year max_year y)"
proof -
  from assms have s: "strip y = y" by (simp add: plain_year_def)
  show ?thesis
  proof (cases "str_isdigit y")
    case False
    then have "\<not> (y \<noteq> [] \<and> list_all isdigit y)"
      by (auto simp: str_isdigit_def list_all_iff)
    with False s show ?thesis
      by (auto simp: year_ok_def year_passes_def)
  next
    case True
    with assms have d: "list_all isdigit y" "length y \<le> 4300" "y \<noteq> []"
      by (auto simp: plain_year_def str_isdigit_def)
    with True s show ?thesis
      by (cases min_year; cases max_year)
         (auto simp: year_ok_def year_passes_def within_bounds_def Let_def)
  qed
qed

lemma year_mask_plain:
  assumes "\<forall>y \<in> set ys. plain_year y"
  shows "year_mask min_year max_year ys = Inr (map (year_passes min_year max_year) ys)"
  using assms by (induction ys) (simp_all add: year_ok_plain)

lemma select_map: "select xs (map P xs) = filter (\<lambda>x. P x) xs"
  by (induction xs) (simp_all add: select_def)

lemma matches_only_filter_keywords: "matches_only_filter r terms = keywords_pass terms r"
  by (simp add: matches_only_filter_def keywords_pass_def)

lemma keywords_pass_Nil: "keywords_pass [] r"
  by (simp add: keywords_pass_def)

lemma apply_filters_plain:
  assumes "\<forall>r \<in> set df. plain_year (Year r)"
  shows "apply_filters df min_year max_year only_terms
           = Inr (stated_filter df min_year max_year only_terms)"
proof -
  from assms have "\<forall>y \<in> set (map Year df). plain_year y" by simp
  from year_mask_plain[OF this]
  have m: "year_mask min_year max_year (map Year df)
             = Inr (map (\<lambda>r. year_passes min_year max_year (Year r)) df)"
    by (simp add: comp_def)
  have s: "select df (map (\<lambda>r. year_passes min_year max_year (Year r)) df)
             = filter (\<lambda>r. year_passes min_year max_year (Year r)) df"
    by (rule select_map)
  show ?thesis
    unfolding apply_filters_def stated_filter_def m matches_only_filter_keywords bound_set_def
    by (auto simp: s keywords_pass_Nil conj_commute)
qed


section \<open>Properties of the year range parser\<close>

lemma digit_not_space: "isdigit c \<Longrightarrow> \<not> isspace c"
  by (auto simp: isdigit_def isspace_def)

lemma hyphen_not_space: "\<not> isspace (CHR ''-'')"
  by (simp add: isspace_def)

lemma dropWhile_spaces_append:
  "list_all isspace w \<Longrightarrow> rest = [] \<or> \<not> isspace (hd rest) \<Longrightarrow> dropWhile isspace (w @ rest) = rest"
proof (induction w)
  case Nil
  then show ?case by (cases rest) auto
next
  case (Cons c w)
  then show ?case by simp
qed

lemma four_digits_hd: "four_digits a \<Longrightarrow> a \<noteq> [] \<and> \<not> isspace (hd a)"
  by (cases a) (auto simp: four_digits_def digit_not_space)

lemma digits4_append: "four_digits a \<Longrightarrow> digits4 (a @ rest) = Some (a, rest)"
  by (simp add: four_digits_def digits4_def)

lemma digits4_Some: "digits4 s = Some (a, rest) \<Longrightarrow> s = a @ rest \<and> four_digits a"
  by (auto simp: digits4_def four_digits_def split: if_splits)

lemma year_range_match_complete:
  assumes "four_digits a" "four_digits b" "list_all isspace w0" "list_all isspace w1"
    "list_all isspace w2" "list_all isspace w3"
  shows "year_range_match (w0 @ a @ w1 @ ''-'' @ w2 @ b @ w3) = Some (a, b)"
proof -
  from four_digits_hd[OF assms(1)] assms(3)
  have 1: "dropWhile isspace (w0 @ a @ w1 @ ''-'' @ w2 @ b @ w3) = a @ (w1 @ ''-'' @ w2 @ b @ w3)"
    by (intro dropWhile_spaces_append) auto
  have 2: "dropWhile isspace (w1 @ CHR ''-'' # w2 @ b @ w3) = CHR ''-'' # (w2 @ b @ w3)"
    using dropWhile_spaces_append[OF assms(4), of "CHR ''-'' # (w2 @ b @ w3)"] hyphen_not_space
    by simp
  from four_digits_hd[OF assms(2)] assms(5)
  have 3: "dropWhile isspace (w2 @ b @ w3) = b @ w3"
    by (intro dropWhile_spaces_append) auto
  have 4: "dropWhile isspace w3 = []"
    using dropWhile_spaces_append[OF assms(6), of "[]"] by simp
  show ?thesis
    unfolding year_range_match_def 1 digits4_append[OF assms(1)]
    using assms(6) by (simp add: 2 3 digits4_append[OF assms(2)] list_all_iff)
qed

lemma takeWhile_spaces: "list_all isspace (takeWhile isspace s)"
  by (induction s) auto

lemma year_range_match_sound:
  assumes "year_range_match t = Some (a, b)"
  shows "\<exists>w0 w1 w2 w3. t = w0 @ a @ w1 @ ''-'' @ w2 @ b @ w3 \<and> four_digits a \<and> four_digits b \<and>
           list_all isspace w0 \<and> list_all isspace w1 \<and> list_all isspace w2 \<and> list_all isspace w3"
proof -
  from assms obtain r1 r2 r3 where 1: "digits4 (dropWhile isspace t) = Some (a, r1)"
    and 2: "dropWhile isspace r1 = CHR ''-'' # r2"
    and 3: "digits4 (dropWhile isspace r2) = Some (b, r3)"
    and 4: "dropWhile isspace r3 = []"
    by (auto simp: year_range_match_def split: option.splits list.splits if_splits prod.splits)
  have t: "t = takeWhile isspace t @ a @ r1"
    using digits4_Some[OF 1] by (metis takeWhile_dropWhile_id)
  have r1: "r1 = takeWhile isspace r1 @ ''-'' @ r2"
    using 2 by (metis append_Cons append_Nil takeWhile_dropWhile_id)
  have r2: "r2 = takeWhile isspace r2 @ b @ r3"
    using digits4_Some[OF 3] by (metis takeWhile_dropWhile_id)
  have r3: "list_all isspace r3"
    using 4 by (simp add: dropWhile_eq_Nil_conv list_all_iff)
  have "t = takeWhile isspace t @ a @ takeWhile isspace r1 @ ''-'' @ takeWhile isspace r2 @ b @ r3"
    using t r1 r2 by (metis append.assoc)
  with digits4_Some[OF 1] digits4_Some[OF 3] r3 takeWhile_spaces show ?thesis
    by blast
qed

lemma strip_edges: "strip s \<noteq> [] \<Longrightarrow> \<not> isspace (hd (strip s)) \<and> \<not> isspace (last (strip s))"
proof -
  assume ne: "strip s \<noteq> []"
  have l: "\<not> isspace (last (strip s))"
  proof -
    from ne have "dropWhile isspace (rev (lstrip s)) \<noteq> []"
      by (simp add: strip_def rstrip_def)
    then have "\<not> isspace (hd (dropWhile isspace (rev (lstrip s))))"
      by (rule hd_dropWhile)
    with ne show ?thesis
      by (simp add: strip_def rstrip_def last_rev)
  qed
  have "strip s = rev (dropWhile isspace (rev (dropWhile isspace s)))"
    by (simp add: strip_def rstrip_def lstrip_def)
  moreover have "dropWhile isspace s \<noteq> []"
  proof
    assume "dropWhile isspace s = []"
    then have "strip s = []"
      by (simp only: strip_def rstrip_def lstrip_def rev.simps dropWhile.simps)
    with ne show False by simp
  qed
  then have h: "\<not> isspace (hd (dropWhile isspace s))" by (rule hd_dropWhile)
  have "hd (strip s) = hd (dropWhile isspace s)"
  proof -
    obtain c cs where cs: "dropWhile isspace s = c # cs" using \<open>dropWhile isspace s \<noteq> []\<close>
      by (cases "dropWhile isspace s") auto
    with h have c: "\<not> isspace c" by simp
    have "rev (dropWhile isspace (rev (c # cs))) = c # rev (dropWhile isspace (rev cs))"
      using c by (simp add: dropWhile_append3)
    then show ?thesis by (simp add: strip_def rstrip_def lstrip_def cs)
  qed
  with h l show ?thesis by simp
qed

lemma year_range_match_stripped:
  assumes "strip s \<noteq> []" "year_range_match (strip s) = Some (a, b)"
  shows "\<exists>w1 w2. strip s = a @ w1 @ ''-'' @ w2 @ b \<and> four_digits a \<and> four_digits b \<and>
           list_all isspace w1 \<and> list_all isspace w2"
proof -
  from year_range_match_sound[OF assms(2)] obtain w0 w1 w2 w3 where
    d: "strip s = w0 @ a @ w1 @ ''-'' @ w2 @ b @ w3" "four_digits a" "four_digits b"
       "list_all isspace w0" "list_all isspace w1" "list_all isspace w2" "list_all isspace w3"
    by blast
  from strip_edges[OF assms(1)] have e: "\<not> isspace (hd (strip s))" "\<not> isspace (last (strip s))"
    by auto
  have "w0 = []"
  proof (rule ccontr)
    assume "w0 \<noteq> []"
    then have "hd (strip s) = hd w0" by (simp add: d(1))
    with d(4) \<open>w0 \<noteq> []\<close> e(1) show False by (cases w0) auto
  qed
  moreover have "w3 = []"
  proof (rule ccontr)
    assume n: "w3 \<noteq> []"
    then have "last (strip s) = last w3" by (simp add: d(1))
    with d(7) n e(2) show False
      by (metis last_in_set list_all_iff)
  qed
  ultimately show ?thesis using d by auto
qed

lemma parse_year_range_cases:
  "(strip s = [] \<longrightarrow> parse_year_range s = Inr (None, None)) \<and>
   (\<forall>a b w1 w2. strip s = a @ w1 @ ''-'' @ w2 @ b \<and> four_digits a \<and> four_digits b \<and>
        list_all isspace w1 \<and> list_all isspace w2 \<longrightarrow>
      parse_year_range s = Inr (Some (min (int (int_of_digits a)) (int (int_of_digits b))),
                                Some (max (int (int_of_digits a)) (int (int_of_digits b))))) \<and>
   (strip s \<noteq> [] \<and> (\<nexists>a b w1 w2. strip s = a @ w1 @ ''-'' @ w2 @ b \<and> four_digits a \<and> four_digits b \<and>
        list_all isspace w1 \<and> list_all isspace w2) \<longrightarrow>
      parse_year_range s = Inl ValueError)"
proof (intro conjI allI impI)
  assume "strip s = []"
  then show "parse_year_range s = Inr (None, None)"
    by (simp add: parse_year_range_def)
next
  fix a b w1 w2
  assume h: "strip s = a @ w1 @ ''-'' @ w2 @ b \<and> four_digits a \<and> four_digits b \<and>
        list_all isspace w1 \<and> list_all isspace w2"
  then have "year_range_match (strip s) = Some (a, b)"
    using year_range_match_complete[of a b "[]" w1 w2 "[]"] by simp
  moreover from h have "strip s \<noteq> []" using four_digits_hd by auto
  ultimately show "parse_year_range s =
      Inr (Some (min (int (int_of_digits a)) (int (int_of_digits b))),
           Some (max (int (int_of_digits a)) (int (int_of_digits b))))"
    by (simp add: parse_year_range_def Let_def min_def max_def)
next
  assume h: "strip s \<noteq> [] \<and> (\<nexists>a b w1 w2. strip s = a @ w1 @ ''-'' @ w2 @ b \<and> four_digits a \<and>
        four_digits b \<and> list_all isspace w1 \<and> list_all isspace w2)"
  have "year_range_match (strip s) = None"
  proof (cases "year_range_match (strip s)")
    case None then show ?thesis .
  next
    case (Some p)
    obtain a b where "p = (a, b)" by (cases p)
    with Some year_range_match_stripped[of s a b] h show ?thesis by blast
  qed
  with h show "parse_year_range s = Inl ValueError"
    by (simp add: parse_year_range_def)
qed

text \<open>
  C7, as stated, fails: \<open>2007 - 2017\<close>, with blanks around the hyphen, is not empty and
  not of the form \<open>YYYY-YYYY\<close> with white space around it, yet no error is raised: the
  pattern allows white space on both sides of the hyphen.
\<close>

theorem parse_year_range_inner_space_counterexample:
  "strip ''2007 - 2017'' \<noteq> '''' \<and>
   \<not> stated_year_range_form ''2007 - 2017'' \<and>
   parse_year_range ''2007 - 2017'' = Inr (Some 2007, Some 2017)"
  by code_simp

text \<open>
  C7, amended. \<open>parse_year_range\<close> returns \<open>(None, None)\<close> for an empty or all-blank string.
  For a string that, trimmed, is four digits, optional white space, a hyphen, optional
  white space and four digits, it returns the two numbers, the smaller first. For every
  other string it raises the format error. So \<open>2017-2007\<close> gives \<open>(2007, 2017)\<close> and \<open>abc\<close>
  is an error.
\<close>

theorem parse_year_range_total_cases:
  "(strip s = [] \<longrightarrow> parse_year_range s = Inr (None, None)) \<and>
   (\<forall>a b w1 w2. strip s = a @ w1 @ ''-'' @ w2 @ b \<and> four_digits a \<and> four_digits b \<and>
        list_all isspace w1 \<and> list_all isspace w2 \<longrightarrow>
      parse_year_range s = Inr (Some (min (int (int_of_digits a)) (int (int_of_digits b))),
                                Some (max (int (int_of_digits a)) (int (int_of_digits b))))) \<and>
   (strip s \<noteq> [] \<and> (\<nexists>a b w1 w2. strip s = a @ w1 @ ''-'' @ w2 @ b \<and> four_digits a \<and> four_digits b \<and>
        list_all isspace w1 \<and> list_all isspace w2) \<longrightarrow>
      parse_year_range s = Inl ValueError) \<and>
   parse_year_range ''2017-2007'' = Inr (Some 2007, Some 2017) \<and>
   parse_year_range '''' = Inr (None, None) \<and>
   parse_year_range ''abc'' = Inl ValueError"
proof -
  have "parse_year_range ''2017-2007'' = Inr (Some 2007, Some 2017)"
    by code_simp
  moreover have "parse_year_range '''' = Inr (None, None)"
    by code_simp
  moreover have "parse_year_range ''abc'' = Inl ValueError"
    by code_simp
  ultimately show ?thesis
    using parse_year_range_cases[of s] by simp
qed

theorem parse_year_range_total_cases_witness:
  "parse_year_range ''  2017 -  2007 '' = Inr (Some 2007, Some 2017)"
proof -
  have 1: "strip ''  2017 -  2007 '' = ''2017'' @ '' '' @ ''-'' @ ''  '' @ ''2007''"
    by code_simp
  have 2: "four_digits ''2017''" "four_digits ''2007''" "list_all isspace '' ''" "list_all isspace ''  ''"
    by code_simp+
  from parse_year_range_total_cases[of "''  2017 -  2007 ''"]
  have "\<forall>a b w1 w2. strip ''  2017 -  2007 '' = a @ w1 @ ''-'' @ w2 @ b \<and> four_digits a \<and> four_digits b \<and>
        list_all isspace w1 \<and> list_all isspace w2 \<longrightarrow>
      parse_year_range ''  2017 -  2007 '' =
        Inr (Some (min (int (int_of_digits a)) (int (int_of_digits b))),
             Some (max (int (int_of_digits a)) (int (int_of_digits b))))"
    by blast
  with 1 2 have "parse_year_range ''  2017 -  2007 '' =
        Inr (Some (min (int (int_of_digits ''2017'')) (int (int_of_digits ''2007''))),
             Some (max (int (int_of_digits ''2017'')) (int (int_of_digits ''2007''))))"
    by blast
  also have "\<dots> = Inr (Some 2007, Some 2017)"
    by code_simp
  finally show ?thesis .
qed

section \<open>Properties of the year extraction\<close>

lemma year_at_whole_word:
  "year_at (if pre = [] then None else Some (last pre)) s = whole_word_year (pre @ s) (length pre)"
proof (cases "pre = []")
  case True
  then show ?thesis
    by (auto simp: year_at_def whole_word_year_def year_digits_def)
next
  case False
  then have "(pre @ s) ! (length pre - 1) = last pre"
    by (simp add: last_conv_nth nth_append)
  with False show ?thesis
    by (auto simp: year_at_def whole_word_year_def year_digits_def nth_append)
qed

lemma year_search_first:
  "year_search (if pre = [] then None else Some (last pre)) s = Some m \<longleftrightarrow>
     (\<exists>i. length pre \<le> i \<and> whole_word_year (pre @ s) i \<and>
          (\<forall>j. length pre \<le> j \<and> j < i \<longrightarrow> \<not> whole_word_year (pre @ s) j) \<and>
          m = take 4 (drop i (pre @ s)))"
proof (induction s arbitrary: pre)
  case Nil
  have "\<not> whole_word_year pre i" if "length pre \<le> i" for i
    using that by (simp add: whole_word_year_def year_digits_def)
  then show ?case by auto
next
  case (Cons c cs)
  let ?v = "pre @ c # cs"
  have at: "year_at (if pre = [] then None else Some (last pre)) (c # cs)
            = whole_word_year ?v (length pre)"
    by (rule year_at_whole_word)
  show ?case
  proof (cases "whole_word_year ?v (length pre)")
    case True
    have "(\<exists>i. length pre \<le> i \<and> whole_word_year ?v i \<and>
          (\<forall>j. length pre \<le> j \<and> j < i \<longrightarrow> \<not> whole_word_year ?v j) \<and>
          m = take 4 (drop i ?v)) \<longleftrightarrow> m = take 4 (c # cs)"
    proof
      assume "\<exists>i. length pre \<le> i \<and> whole_word_year ?v i \<and>
          (\<forall>j. length pre \<le> j \<and> j < i \<longrightarrow> \<not> whole_word_year ?v j) \<and>
          m = take 4 (drop i ?v)"
      then obtain i where i: "length pre \<le> i"
        "\<forall>j. length pre \<le> j \<and> j < i \<longrightarrow> \<not> whole_word_year ?v j" "m = take 4 (drop i ?v)"
        by blast
      from i(1,2) True have "i = length pre"
        by (metis le_neq_implies_less order_refl)
      with i(3) show "m = take 4 (c # cs)" by simp
    next
      assume "m = take 4 (c # cs)"
      with True show "\<exists>i. length pre \<le> i \<and> whole_word_year ?v i \<and>
          (\<forall>j. length pre \<le> j \<and> j < i \<longrightarrow> \<not> whole_word_year ?v j) \<and>
          m = take 4 (drop i ?v)"
        by (intro exI[of _ "length pre"]) auto
    qed
    with True at show ?thesis by auto
  next
    case False
    have ih: "year_search (Some c) cs = Some m \<longleftrightarrow>
       (\<exists>i. length (pre @ [c]) \<le> i \<and> whole_word_year ((pre @ [c]) @ cs) i \<and>
          (\<forall>j. length (pre @ [c]) \<le> j \<and> j < i \<longrightarrow> \<not> whole_word_year ((pre @ [c]) @ cs) j) \<and>
          m = take 4 (drop i ((pre @ [c]) @ cs)))"
      using Cons.IH[of "pre @ [c]"] by simp
    have "(\<exists>i. Suc (length pre) \<le> i \<and> whole_word_year ?v i \<and>
          (\<forall>j. Suc (length pre) \<le> j \<and> j < i \<longrightarrow> \<not> whole_word_year ?v j) \<and>
          m = take 4 (drop i ?v))
       \<longleftrightarrow> (\<exists>i. length pre \<le> i \<and> whole_word_year ?v i \<and>
          (\<forall>j. length pre \<le> j \<and> j < i \<longrightarrow> \<not> whole_word_year ?v j) \<and>
          m = take 4 (drop i ?v))"
    proof
      assume "\<exists>i. Suc (length pre) \<le> i \<and> whole_word_year ?v i \<and>
          (\<forall>j. Suc (length pre) \<le> j \<and> j < i \<longrightarrow> \<not> whole_word_year ?v j) \<and>
          m = take 4 (drop i ?v)"
      then obtain i where i: "Suc (length pre) \<le> i" "whole_word_year ?v i"
          "\<forall>j. Suc (length pre) \<le> j \<and> j < i \<longrightarrow> \<not> whole_word_year ?v j"
          "m = take 4 (drop i ?v)" by blast
      have "\<forall>j. length pre \<le> j \<and> j < i \<longrightarrow> \<not> whole_word_year ?v j"
      proof (intro allI impI)
        fix j assume j: "length pre \<le> j \<and> j < i"
        show "\<not> whole_word_year ?v j"
        proof (cases "j = length pre")
          case True with False show ?thesis by simp
        next
          case F: False
          with j have "Suc (length pre) \<le> j" by simp
          with i(3) j show ?thesis by blast
        qed
      qed
      with i show "\<exists>i. length pre \<le> i \<and> whole_word_year ?v i \<and>
          (\<forall>j. length pre \<le> j \<and> j < i \<longrightarrow> \<not> whole_word_year ?v j) \<and>
          m = take 4 (drop i ?v)"
        by (intro exI[of _ i]) simp
    next
      assume "\<exists>i. length pre \<le> i \<and> whole_word_year ?v i \<and>
          (\<forall>j. length pre \<le> j \<and> j < i \<longrightarrow> \<not> whole_word_year ?v j) \<and>
          m = take 4 (drop i ?v)"
      then obtain i where i: "length pre \<le> i" "whole_word_year ?v i"
          "\<forall>j. length pre \<le> j \<and> j < i \<longrightarrow> \<not> whole_word_year ?v j"
          "m = take 4 (drop i ?v)" by blast
      from i(1,2) False have "Suc (length pre) \<le> i"
        by (metis Suc_leI le_neq_implies_less)
      with i show "\<exists>i. Suc (length pre) \<le> i \<and> whole_word_year ?v i \<and>
          (\<forall>j. Suc (length pre) \<le> j \<and> j < i \<longrightarrow> \<not> whole_word_year ?v j) \<and>
          m = take 4 (drop i ?v)"
        by (intro exI[of _ i]) simp
    qed
    with False at ih show ?thesis by simp
  qed
qed

lemma year_search_leftmost:
  "year_search None v = Some m \<longleftrightarrow>
     (\<exists>i. whole_word_year v i \<and> (\<forall>j < i. \<not> whole_word_year v j) \<and> m = take 4 (drop i v))"
  using year_search_first[of "[]" v m] by simp

lemma year_search_none: "year_search None v = None \<longleftrightarrow> (\<forall>i. \<not> whole_word_year v i)"
proof
  assume n: "year_search None v = None"
  show "\<forall>i. \<not> whole_word_year v i"
  proof (rule ccontr)
    assume "\<not> (\<forall>i. \<not> whole_word_year v i)"
    then have ex: "\<exists>i. whole_word_year v i" by blast
    define i where "i = (LEAST i. whole_word_year v i)"
    from ex have "whole_word_year v i" unfolding i_def by (metis LeastI)
    moreover have "\<forall>j < i. \<not> whole_word_year v j"
      unfolding i_def using not_less_Least by blast
    ultimately have "year_search None v = Some (take 4 (drop i v))"
      using year_search_leftmost[of v "take 4 (drop i v)"] by blast
    with n show False by simp
  qed
next
  assume "\<forall>i. \<not> whole_word_year v i"
  then show "year_search None v = None"
    using year_search_leftmost[of v] by (cases "year_search None v") auto
qed

lemma year_from_tags_first:
  "year_from_tags r ks =
     (case List.map_filter (\<lambda>k. year_search None (strip (first_value (map_of r k)))) ks of
        [] \<Rightarrow> '''' | m # ms \<Rightarrow> m)"
  by (induction ks) (auto simp: List.map_filter_simps Let_def split: option.splits)

lemma year_at_four_digits: "year_at prev s \<Longrightarrow> four_digits (take 4 s)"
proof -
  assume a: "year_at prev s"
  then have l: "4 \<le> length s" by (simp add: year_at_def)
  then obtain a b c d rest where s: "s = a # b # c # d # rest"
    by (auto simp: Suc_le_length_iff numeral_eq_Suc)
  from a show ?thesis
    unfolding s by (auto simp: year_at_def four_digits_def isdigit_def)
qed

lemma year_search_four_digits: "year_search prev s = Some m \<Longrightarrow> four_digits m"
proof (induction prev s rule: year_search.induct)
  case (1 prev)
  then show ?case by simp
next
  case (2 prev c cs)
  show ?case
  proof (cases "year_at prev (c # cs)")
    case True
    with 2(2) have "m = take 4 (c # cs)" by (simp del: take_Cons_numeral)
    with year_at_four_digits[OF True] show ?thesis by (simp del: take_Cons_numeral)
  next
    case False
    with 2 show ?thesis by simp
  qed
qed

lemma year_from_tags_four_digits: "year_from_tags r ks = [] \<or> four_digits (year_from_tags r ks)"
  by (induction ks) (auto simp: Let_def year_search_four_digits split: option.splits)

lemma four_digits_plain: "four_digits y \<Longrightarrow> plain_year y"
proof -
  assume f: "four_digits y"
  then obtain a b c d where y: "y = [a, b, c, d]"
    by (auto simp: four_digits_def length_Suc_conv numeral_eq_Suc)
  from f have "\<not> isspace a" "\<not> isspace d"
    unfolding y by (auto simp: four_digits_def digit_not_space)
  then have "strip y = y"
    unfolding y by (simp add: strip_def lstrip_def rstrip_def)
  with f show ?thesis
    by (simp add: plain_year_def four_digits_def)
qed

lemma year_from_any_plain: "plain_year (year_from_any r)"
proof -
  have "plain_year []"
    by (simp add: plain_year_def strip_def lstrip_def rstrip_def str_isdigit_def)
  with year_from_tags_four_digits[of r "[''PY'', ''Y1'', ''DA'', ''DP'']"] four_digits_plain
  show ?thesis
    unfolding year_from_any_def by auto
qed

text \<open>
  C6, as stated, fails: in \<open>c2015\<close> the first substring of four digits beginning with 20
  is \<open>2015\<close>, yet \<open>year_from_any\<close> returns the empty string, because the pattern asks
  for a word boundary on both sides of the year.
\<close>

theorem year_from_any_word_boundary_counterexample:
  "stated_year_search (strip ''c2015'') = Some ''2015'' \<and>
   year_from_any [(''PY'', Scalar ''c2015'')] = ''''"
  by code_simp

text \<open>
  C6, amended. \<open>year_from_any\<close> scans the tags PY, Y1, DA, DP in this order; in the
  trimmed value of each (the first element of a list) it searches for the leftmost
  four-digit number beginning with 19 or 20 that stands as a whole word, with no word
  character right before or after it, and returns the first match found; it
  returns the empty string when no tag yields one. So \<open>PY = 2015 Mar\<close> gives \<open>2015\<close> and
  \<open>DA = no year here\<close> gives the empty string.
\<close>

theorem year_from_any_first_whole_word_year:
  "year_from_any r =
     (case List.map_filter (\<lambda>k. year_search None (strip (first_value (map_of r k))))
             [''PY'', ''Y1'', ''DA'', ''DP''] of
        [] \<Rightarrow> '''' | m # ms \<Rightarrow> m) \<and>
   (year_search None v = Some m \<longleftrightarrow>
     (\<exists>i. whole_word_year v i \<and> (\<forall>j < i. \<not> whole_word_year v j) \<and> m = take 4 (drop i v))) \<and>
   (year_search None v = None \<longleftrightarrow> (\<forall>i. \<not> whole_word_year v i)) \<and>
   year_from_any [(''PY'', Scalar ''2015 Mar'')] = ''2015'' \<and>
   year_from_any [(''DA'', Scalar ''no year here'')] = ''''"
proof -
  have "year_from_any [(''PY'', Scalar ''2015 Mar'')] = ''2015''"
    by code_simp
  moreover have "year_from_any [(''DA'', Scalar ''no year here'')] = ''''"
    by code_simp
  ultimately show ?thesis
    using year_from_tags_first[of r "[''PY'', ''Y1'', ''DA'', ''DP'']"]
      year_search_leftmost[of v m] year_search_none[of v]
    by (simp only: year_from_any_def simp_thms)
qed

theorem year_from_any_first_whole_word_year_witness:
  "year_from_any [(''DP'', Scalar ''1999''), (''PY'', Scalar ''n.d.''),
                  (''DA'', Lst ['' v2017 2018/01/02'', ''2001''])] = ''2018''"
proof -
  let ?r = "[(''DP'', Scalar ''1999''), (''PY'', Scalar ''n.d.''),
             (''DA'', Lst ['' v2017 2018/01/02'', ''2001''])]"
  have "year_from_any ?r =
     (case List.map_filter (\<lambda>k. year_search None (strip (first_value (map_of ?r k))))
             [''PY'', ''Y1'', ''DA'', ''DP''] of
        [] \<Rightarrow> '''' | m # ms \<Rightarrow> m)"
    using year_from_any_first_whole_word_year[of ?r "[]" "[]"] by (rule conjunct1)
  also have "\<dots> = ''2018''"
    by code_simp
  finally show ?thesis .
qed

section \<open>Properties of the Index resolution\<close>

lemma contains_iff: "contains k s \<longleftrightarrow> (\<exists>p q. s = p @ k @ q)"
proof (induction s)
  case Nil
  then show ?case by auto
next
  case (Cons c cs)
  show ?case
  proof
    assume "contains k (c # cs)"
    then consider "prefix k (c # cs)" | "contains k cs" by auto
    then show "\<exists>p q. c # cs = p @ k @ q"
    proof cases
      case 1
      then obtain q where "c # cs = k @ q" by (auto simp: prefix_def)
      then have "c # cs = [] @ k @ q" by simp
      then show ?thesis by blast
    next
      case 2
      with Cons.IH obtain p q where "cs = p @ k @ q" by blast
      then have "c # cs = (c # p) @ k @ q" by simp
      then show ?thesis by blast
    qed
  next
    assume "\<exists>p q. c # cs = p @ k @ q"
    then obtain p q where pq: "c # cs = p @ k @ q" by blast
    show "contains k (c # cs)"
    proof (cases p)
      case Nil
      with pq have "prefix k (c # cs)" by (simp add: prefix_def)
      then show ?thesis by simp
    next
      case (Cons d p')
      with pq have "cs = p' @ k @ q" by simp
      with Cons.IH have "contains k cs" by blast
      then show ?thesis by simp
    qed
  qed
qed

lemma provider_lookup_find:
  "provider_lookup host kvs = map_option snd (find (\<lambda>(k, v). contains k host) kvs)"
  by (induction kvs) auto

lemma doi_prefix_label_find:
  "doi_prefix_label doi = map_option snd (find (\<lambda>(p, v). prefix p doi) DOI_PREFIXES)"
  by (simp add: doi_prefix_label_def DOI_PREFIXES_def)

lemma index_from_record_tiers:
  "index_from_record netloc title r fallback =
     (case (case host_of netloc r of
              None \<Rightarrow> None
            | Some host \<Rightarrow> find (\<lambda>(k, v). contains k host) PROVIDER_MAP) of
        Some (k, v) \<Rightarrow> v
      | None \<Rightarrow>
          (case (if lower (strip (doi_text r)) = [] then None
                 else find (\<lambda>(p, v). prefix p (lower (strip (doi_text r)))) DOI_PREFIXES) of
             Some (p, v) \<Rightarrow> v
           | None \<Rightarrow>
               (if clean_fallback fallback = [] then ''Unknown Source''
                else title (clean_fallback fallback))))"
proof -
  let ?ur = "strip (first_value (map_of r ''UR''))"
  let ?hit = "(if ?ur \<noteq> [] then
                   (case netloc ?ur of
                      Inl e \<Rightarrow> None
                    | Inr nl \<Rightarrow> provider_lookup (lower nl) PROVIDER_MAP)
                 else None)"
  let ?doi = "lower (strip (doi_text r))"
  let ?dhit = "(if ?doi \<noteq> [] then doi_prefix_label ?doi else None)"
  have h: "?hit = map_option snd (case host_of netloc r of
              None \<Rightarrow> None
            | Some host \<Rightarrow> find (\<lambda>(k, v). contains k host) PROVIDER_MAP)"
    by (simp add: host_of_def provider_lookup_find Let_def split: sum.splits)
  have d: "?dhit = map_option snd (if ?doi = [] then None
                 else find (\<lambda>(p, v). prefix p ?doi) DOI_PREFIXES)"
    by (simp add: doi_prefix_label_find)
  have "index_from_record netloc title r fallback =
      (case ?hit of Some v \<Rightarrow> v
       | None \<Rightarrow> (case ?dhit of Some v \<Rightarrow> v
           | None \<Rightarrow> (if clean_fallback fallback = [] then ''Unknown Source''
                        else title (clean_fallback fallback))))"
    by (simp add: index_from_record_def Let_def split: option.splits)
  then show ?thesis
    unfolding h d by (auto split: option.splits)
qed

lemma acm_by_host:
  assumes "host_of netloc r = Some host" "contains ''dl.acm.org'' host"
    "\<forall>k \<in> set (map fst (take 8 PROVIDER_MAP)). \<not> contains k host"
  shows "index_from_record netloc title r fallback = ''ACM Digital Library''"
proof -
  from assms(2,3) have "find (\<lambda>(k, v). contains k host) PROVIDER_MAP
      = Some (''dl.acm.org'', ''ACM Digital Library'')"
    by (simp add: PROVIDER_MAP_def)
  with assms(1) show ?thesis
    by (simp add: index_from_record_tiers)
qed

lemma ieee_by_doi:
  assumes "strip (first_value (map_of r ''UR'')) = []" "map_of r ''DO'' = Some (Scalar d)"
    "prefix ''10.1109'' (lower (strip d))"
  shows "index_from_record netloc title r fallback = ''IEEE Xplore''"
proof -
  from assms(3) have ne: "lower (strip d) \<noteq> []" by auto
  then have "d \<noteq> []" by (auto simp: lower_def strip_def lstrip_def rstrip_def)
  with assms(2) have t: "doi_text r = d" by (simp add: doi_text_def)
  from assms(1) have h: "host_of netloc r = None" by (simp add: host_of_def)
  from assms(3) have "find (\<lambda>(p, v). prefix p (lower (strip d))) DOI_PREFIXES
      = Some (''10.1109'', ''IEEE Xplore'')"
    by (simp add: DOI_PREFIXES_def)
  with h t ne show ?thesis
    by (simp add: index_from_record_tiers)
qed

text \<open>
  C3, as stated, fails: the URL \<open>dl.acm.org/doi/10.1145/1\<close> contains \<open>dl.acm.org\<close>, but it
  has no \<open>//\<close>, so \<open>urlparse\<close> finds the empty network location in it; no provider key
  is found there, and the label comes from the fallback.
\<close>

theorem index_from_record_url_without_host_counterexample:
  "\<forall>netloc title.
     contains ''dl.acm.org'' ''dl.acm.org/doi/10.1145/1'' \<and>
     index_from_record (netloc(''dl.acm.org/doi/10.1145/1'' := Inr [])) title
       [(''UR'', Scalar ''dl.acm.org/doi/10.1145/1'')] ''exports'' = ''Unknown Source''"
proof (intro allI conjI)
  show "contains ''dl.acm.org'' ''dl.acm.org/doi/10.1145/1''"
    by code_simp
next
  fix netloc :: "string \<Rightarrow> py_error + string" and title :: "string \<Rightarrow> string"
  have u: "strip (first_value (map_of [(''UR'', Scalar ''dl.acm.org/doi/10.1145/1'')] ''UR''))
             = ''dl.acm.org/doi/10.1145/1''"
    by code_simp
  have h: "provider_lookup (lower []) PROVIDER_MAP = None"
    by code_simp
  have d: "lower (strip (doi_text [(''UR'', Scalar ''dl.acm.org/doi/10.1145/1'')])) = []"
    by code_simp
  have f: "clean_fallback ''exports'' = []"
    by code_simp
  show "index_from_record (netloc(''dl.acm.org/doi/10.1145/1'' := Inr [])) title
          [(''UR'', Scalar ''dl.acm.org/doi/10.1145/1'')] ''exports'' = ''Unknown Source''"
    unfolding index_from_record_def Let_def u d f
    by (simp add: h)
qed

text \<open>
  C3, amended. \<open>index_from_record\<close> resolves the label in strict precedence. (1) When the
  first URL value, trimmed, is not empty and parses, the provider keys are tested in
  their declared order for being a substring of its host in lower case, and the label of
  the first hit is returned. (2) Otherwise, when the text of the DOI value (DO, else DOI)
  is not empty, its trimmed lower-case form is tested against the DOI prefix table and
  the label of the matching prefix is returned. (3) Otherwise the fallback is cleaned
  (underscores to blanks, the whole word \<open>exports\<close> removed in any case, trimmed) and
  returned in title case, or \<open>Unknown Source\<close> when nothing is left. In particular a
  record whose URL host contains \<open>dl.acm.org\<close> and none of the keys declared before it
  resolves to the ACM Digital Library, and a record with no URL whose single DOI value
  has the prefix \<open>10.1109\<close> resolves to IEEE Xplore.
\<close>

theorem index_from_record_precedence:
  "index_from_record netloc title r fallback =
     (case (case host_of netloc r of
              None \<Rightarrow> None
            | Some host \<Rightarrow> find (\<lambda>(k, v). contains k host) PROVIDER_MAP) of
        Some (k, v) \<Rightarrow> v
      | None \<Rightarrow>
          (case (if lower (strip (doi_text r)) = [] then None
                 else find (\<lambda>(p, v). prefix p (lower (strip (doi_text r)))) DOI_PREFIXES) of
             Some (p, v) \<Rightarrow> v
           | None \<Rightarrow>
               (if clean_fallback fallback = [] then ''Unknown Source''
                else title (clean_fallback fallback)))) \<and>
   (contains k s \<longleftrightarrow> (\<exists>p q. s = p @ k @ q)) \<and>
   (host_of netloc r = Some host \<and> contains ''dl.acm.org'' host \<and>
      (\<forall>k \<in> set (map fst (take 8 PROVIDER_MAP)). \<not> contains k host) \<longrightarrow>
    index_from_record netloc title r fallback = ''ACM Digital Library'') \<and>
   (strip (first_value (map_of r ''UR'')) = [] \<and> map_of r ''DO'' = Some (Scalar d) \<and>
      prefix ''10.1109'' (lower (strip d)) \<longrightarrow>
    index_from_record netloc title r fallback = ''IEEE Xplore'')"
proof -
  have 3: "host_of netloc r = Some host \<and> contains ''dl.acm.org'' host \<and>
      (\<forall>k \<in> set (map fst (take 8 PROVIDER_MAP)). \<not> contains k host) \<longrightarrow>
    index_from_record netloc title r fallback = ''ACM Digital Library''"
    using acm_by_host[of netloc r host title fallback] by blast
  have 4: "strip (first_value (map_of r ''UR'')) = [] \<and> map_of r ''DO'' = Some (Scalar d) \<and>
      prefix ''10.1109'' (lower (strip d)) \<longrightarrow>
    index_from_record netloc title r fallback = ''IEEE Xplore''"
    using ieee_by_doi[of r d netloc title fallback] by blast
  show ?thesis
    by (rule conjI[OF index_from_record_tiers conjI[OF contains_iff conjI[OF 3 4]]])
qed

theorem index_from_record_precedence_witness:
  "\<forall>netloc title.
     index_from_record (netloc(''HTTPS://DL.ACM.ORG/doi/10.1145/1'' := Inr ''DL.ACM.ORG'')) title
       [(''TI'', Scalar ''A''), (''UR'', Lst ['' HTTPS://DL.ACM.ORG/doi/10.1145/1 '', ''https://x.org''])]
       ''scopus_exports'' = ''ACM Digital Library'' \<and>
     index_from_record netloc title
       [(''TI'', Scalar ''A''), (''DO'', Scalar '' 10.1109/ABC.2020.1'')]
       ''scopus_exports'' = ''IEEE Xplore''"
proof (intro allI)
  fix netloc :: "string \<Rightarrow> py_error + string" and title :: "string \<Rightarrow> string"
  let ?n = "netloc(''HTTPS://DL.ACM.ORG/doi/10.1145/1'' := Inr ''DL.ACM.ORG'')"
  let ?r1 = "[(''TI'', Scalar ''A''),
              (''UR'', Lst ['' HTTPS://DL.ACM.ORG/doi/10.1145/1 '', ''https://x.org''])]"
  let ?r2 = "[(''TI'', Scalar ''A''), (''DO'', Scalar '' 10.1109/ABC.2020.1'')]"
  have u: "strip (first_value (map_of ?r1 ''UR'')) = ''HTTPS://DL.ACM.ORG/doi/10.1145/1''"
    by code_simp
  have l: "lower ''DL.ACM.ORG'' = ''dl.acm.org''"
    by code_simp
  have h: "host_of ?n ?r1 = Some ''dl.acm.org''"
    unfolding host_of_def Let_def u by (simp add: l)
  have c: "contains ''dl.acm.org'' ''dl.acm.org'' \<and>
      (\<forall>k \<in> set (map fst (take 8 PROVIDER_MAP)). \<not> contains k ''dl.acm.org'')"
    by code_simp
  have b: "strip (first_value (map_of ?r2 ''UR'')) = [] \<and>
      map_of ?r2 ''DO'' = Some (Scalar '' 10.1109/ABC.2020.1'') \<and>
      prefix ''10.1109'' (lower (strip '' 10.1109/ABC.2020.1''))"
    by code_simp
  from index_from_record_precedence[of ?n title ?r1 "''scopus_exports''" "[]" "[]" "''dl.acm.org''" "[]"] h c
  have 1: "index_from_record ?n title ?r1 ''scopus_exports'' = ''ACM Digital Library''"
    by blast
  from index_from_record_precedence[of netloc title ?r2 "''scopus_exports''" "[]" "[]" "[]" "'' 10.1109/ABC.2020.1''"] b
  have 2: "index_from_record netloc title ?r2 ''scopus_exports'' = ''IEEE Xplore''"
    by blast
  from 1 2 show "index_from_record ?n title ?r1 ''scopus_exports'' = ''ACM Digital Library'' \<and>
     index_from_record netloc title ?r2 ''scopus_exports'' = ''IEEE Xplore''"
    by (rule conjI)
qed
section \<open>Properties of the Group Assigner\<close>

lemma digit_table:
  "\<forall>k \<in> set [0..<10]. isdigit (''0123456789'' ! k) \<and> digit_val (''0123456789'' ! k) = k"
  by code_simp

lemma digit_char_props: "isdigit (digit_char d) \<and> digit_val (digit_char d) = d mod 10"
proof -
  have "d mod 10 \<in> set [0..<10]" by simp
  with digit_table show ?thesis unfolding digit_char_def by blast
qed

lemma int_of_digits_snoc: "int_of_digits (s @ [c]) = 10 * int_of_digits s + digit_val c"
  by (simp add: int_of_digits_def)

lemma str_of_nat_digits: "list_all isdigit (str_of_nat n)"
  by (induction n rule: str_of_nat.induct)
     (subst str_of_nat.simps, simp add: digit_char_props)

lemma str_of_nat_not_Nil: "str_of_nat n \<noteq> []"
  by (subst str_of_nat.simps) simp

lemma int_of_str_of_nat: "int_of_digits (str_of_nat n) = n"
proof (induction n rule: str_of_nat.induct)
  case (1 n)
  show ?case
  proof (cases "n < 10")
    case True
    then show ?thesis
      by (subst str_of_nat.simps) (simp add: int_of_digits_def digit_char_props)
  next
    case False
    with 1 have "int_of_digits (str_of_nat (n div 10)) = n div 10" by simp
    with False show ?thesis
      by (subst str_of_nat.simps) (simp add: int_of_digits_snoc digit_char_props)
  qed
qed

lemma numbered_header_digits:
  "takeWhile isdigit (str_of_nat n @ ''.('' @ q @ '')'') = str_of_nat n"
proof -
  have "\<not> isdigit (CHR ''.'')" by (simp add: isdigit_def)
  with str_of_nat_digits[of n] show ?thesis
    by (simp add: takeWhile_append2 list_all_iff)
qed

lemma header_determines_number:
  assumes "extract_group_header f = (n, h)" "extract_group_header g = (n', h)"
  shows "n = n'"
proof (cases "fname_match f")
  case None
  with assms(1) have h: "h = ''FILE: '' @ f" "n = None"
    by (auto simp: extract_group_header_def)
  show ?thesis
  proof (cases "fname_match g")
    case N: None
    with assms(2) h show ?thesis by (auto simp: extract_group_header_def)
  next
    case (Some p)
    then obtain d q where "h = str_of_nat (int_of_digits d) @ ''.('' @ q @ '')''"
      using assms(2) by (cases p) (auto simp: extract_group_header_def Let_def)
    with h(1) have "hd (str_of_nat (int_of_digits d)) = CHR ''F''"
      using str_of_nat_not_Nil[of "int_of_digits d"]
      by (cases "str_of_nat (int_of_digits d)") auto
    moreover have "isdigit (hd (str_of_nat (int_of_digits d)))"
      using str_of_nat_digits[of "int_of_digits d"] str_of_nat_not_Nil[of "int_of_digits d"]
      by (cases "str_of_nat (int_of_digits d)") auto
    ultimately show ?thesis by (simp add: isdigit_def)
  qed
next
  case (Some p)
  then obtain d q where h: "h = str_of_nat (int_of_digits d) @ ''.('' @ q @ '')''"
    "n = Some (int_of_digits d)"
    using assms(1) by (cases p) (auto simp: extract_group_header_def Let_def)
  show ?thesis
  proof (cases "fname_match g")
    case None
    with assms(2) have "h = ''FILE: '' @ g" by (auto simp: extract_group_header_def)
    with h(1) have "hd (str_of_nat (int_of_digits d)) = CHR ''F''"
      using str_of_nat_not_Nil[of "int_of_digits d"]
      by (cases "str_of_nat (int_of_digits d)") auto
    moreover have "isdigit (hd (str_of_nat (int_of_digits d)))"
      using str_of_nat_digits[of "int_of_digits d"] str_of_nat_not_Nil[of "int_of_digits d"]
      by (cases "str_of_nat (int_of_digits d)") auto
    ultimately show ?thesis by (simp add: isdigit_def)
  next
    case S: (Some p')
    then obtain d' q' where h': "h = str_of_nat (int_of_digits d') @ ''.('' @ q' @ '')''"
      "n' = Some (int_of_digits d')"
      using assms(2) by (cases p') (auto simp: extract_group_header_def Let_def)
    from h(1) h'(1) have "takeWhile isdigit (str_of_nat (int_of_digits d) @ ''.('' @ q @ '')'')
        = takeWhile isdigit (str_of_nat (int_of_digits d') @ ''.('' @ q' @ '')'')"
      by metis
    then have "str_of_nat (int_of_digits d) = str_of_nat (int_of_digits d')"
      by (simp only: numbered_header_digits)
    then have "int_of_digits (str_of_nat (int_of_digits d)) = int_of_digits (str_of_nat (int_of_digits d'))"
      by simp
    then show ?thesis using h(2) h'(2) by (simp add: int_of_str_of_nat)
  qed
qed

text \<open>The state of the grouping loop after the files \<open>fs\<close>.\<close>

lemma add_file_loop:
  "let st = foldl add_file \<lparr>groups = [], order_keys = []\<rparr> fs in
     distinct (map snd (order_keys st)) \<and>
     snd ` set (order_keys st) = (\<lambda>f. snd (extract_group_header f)) ` set fs \<and>
     set (order_keys st) \<subseteq> extract_group_header ` set fs \<and>
     (\<forall>h. map_of (groups st) h =
        (if h \<in> (\<lambda>f. snd (extract_group_header f)) ` set fs
         then Some (fst (hd (filter (\<lambda>x. snd x = h) (order_keys st))),
                    filter (\<lambda>f. snd (extract_group_header f) = h) fs)
         else None))"
proof (induction fs rule: rev_induct)
  case Nil
  then show ?case by simp
next
  case (snoc f fs)
  define st where "st = foldl add_file \<lparr>groups = [], order_keys = []\<rparr> fs"
  obtain n h where nh: "extract_group_header f = (n, h)" by (cases "extract_group_header f")
  from snoc have ih:
    "distinct (map snd (order_keys st))"
    "snd ` set (order_keys st) = (\<lambda>f. snd (extract_group_header f)) ` set fs"
    "set (order_keys st) \<subseteq> extract_group_header ` set fs"
    "\<And>h. map_of (groups st) h =
        (if h \<in> (\<lambda>f. snd (extract_group_header f)) ` set fs
         then Some (fst (hd (filter (\<lambda>x. snd x = h) (order_keys st))),
                    filter (\<lambda>f. snd (extract_group_header f) = h) fs)
         else None)"
    by (simp_all add: st_def Let_def)
  have step: "foldl add_file \<lparr>groups = [], order_keys = []\<rparr> (fs @ [f]) = add_file st f"
    by (simp add: st_def)
  let ?hdr = "\<lambda>f. snd (extract_group_header f)"
  have hf: "?hdr f = h" by (simp add: nh)
  show ?case
  proof (cases "h \<in> ?hdr ` set fs")
    case True
    with ih(4)[of h] obtain n0 where
      m: "map_of (groups st) h = Some (n0, filter (\<lambda>f. ?hdr f = h) fs)"
         "n0 = fst (hd (filter (\<lambda>x. snd x = h) (order_keys st)))" by simp
    then have a: "add_file st f = st\<lparr>groups := AList.map_entry h (\<lambda>(n, fs). (n, fs @ [f])) (groups st)\<rparr>"
      by (simp add: add_file_def nh)
    have 1: "distinct (map snd (order_keys (add_file st f)))"
      using ih(1) by (simp add: a)
    have 2: "snd ` set (order_keys (add_file st f)) = ?hdr ` set (fs @ [f])"
      using ih(2) True hf by (auto simp: a)
    have 3: "set (order_keys (add_file st f)) \<subseteq> extract_group_header ` set (fs @ [f])"
      using ih(3) by (auto simp: a)
    have 4: "map_of (groups (add_file st f)) h' =
        (if h' \<in> ?hdr ` set (fs @ [f])
         then Some (fst (hd (filter (\<lambda>x. snd x = h') (order_keys (add_file st f)))),
                    filter (\<lambda>f. ?hdr f = h') (fs @ [f]))
         else None)" for h'
    proof (cases "h' = h")
      case T: True
      then show ?thesis using m True hf by (simp add: a map_of_map_entry)
    next
      case F: False
      then have "h' \<in> ?hdr ` set (fs @ [f]) \<longleftrightarrow> h' \<in> ?hdr ` set fs"
        using hf by auto
      moreover have "filter (\<lambda>f. ?hdr f = h') (fs @ [f]) = filter (\<lambda>f. ?hdr f = h') fs"
        using F hf by simp
      ultimately show ?thesis using F ih(4)[of h']
        by (simp add: a map_of_map_entry)
    qed
    show ?thesis
      unfolding step Let_def using 1 2 3 4 by blast
  next
    case False
    with ih(4)[of h] have m: "map_of (groups st) h = None" by simp
    then have a: "add_file st f =
        \<lparr>groups = AList.map_entry h (\<lambda>(n, fs). (n, fs @ [f])) (AList.update h (n, []) (groups st)),
         order_keys = order_keys st @ [(n, h)]\<rparr>"
      by (simp add: add_file_def nh)
    from False ih(2) have nin: "h \<notin> snd ` set (order_keys st)" by simp
    then have f0: "filter (\<lambda>x. snd x = h) (order_keys st) = []"
      by (auto simp: filter_empty_conv)
    have f1: "filter (\<lambda>g. ?hdr g = h) fs = []"
      using False by (auto simp: filter_empty_conv)
    have 1: "distinct (map snd (order_keys (add_file st f)))"
      using ih(1) nin by (simp add: a)
    have 2: "snd ` set (order_keys (add_file st f)) = ?hdr ` set (fs @ [f])"
      using ih(2) hf by (auto simp: a)
    have 3: "set (order_keys (add_file st f)) \<subseteq> extract_group_header ` set (fs @ [f])"
      using ih(3) nh by (auto simp: a)
    have 4: "map_of (groups (add_file st f)) h' =
        (if h' \<in> ?hdr ` set (fs @ [f])
         then Some (fst (hd (filter (\<lambda>x. snd x = h') (order_keys (add_file st f)))),
                    filter (\<lambda>f. ?hdr f = h') (fs @ [f]))
         else None)" for h'
    proof (cases "h' = h")
      case T: True
      then show ?thesis using hf f0 f1 by (simp add: a map_of_map_entry update_conv')
    next
      case F: False
      then have "h' \<in> ?hdr ` set (fs @ [f]) \<longleftrightarrow> h' \<in> ?hdr ` set fs"
        using hf by auto
      moreover have "filter (\<lambda>f. ?hdr f = h') (fs @ [f]) = filter (\<lambda>f. ?hdr f = h') fs"
        using F hf by simp
      moreover have "filter (\<lambda>x. snd x = h') (order_keys st @ [(n, h)])
                = filter (\<lambda>x. snd x = h') (order_keys st)"
        using F by simp
      ultimately show ?thesis using F ih(4)[of h']
        by (simp add: a map_of_map_entry update_conv')
    qed
    show ?thesis
      unfolding step Let_def using 1 2 3 4 by blast
  qed
qed

lemma distinct_map_insort_key:
  "distinct (map g (insort_key k x xs)) \<longleftrightarrow> g x \<notin> g ` set xs \<and> distinct (map g xs)"
  by (induction xs) (auto simp: set_insort_key)

lemma distinct_map_sort_key: "distinct (map g (sort_key k xs)) = distinct (map g xs)"
proof (induction xs)
  case Nil
  then show ?case by simp
next
  case (Cons a xs)
  have "set (foldr (insort_key k) xs []) = set xs"
    using set_sort[of k xs] by (simp add: sort_key_def)
  with Cons show ?case
    by (simp add: sort_key_def distinct_map_insort_key)
qed

lemma order_key_group_before:
  assumes "order_key a \<le> order_key b" "snd a \<noteq> snd b"
  shows "group_before a b"
proof -
  obtain n1 h1 where a: "a = (n1, h1)" by (cases a)
  obtain n2 h2 where b: "b = (n2, h2)" by (cases b)
  from assms show ?thesis
    unfolding a b order_key_def group_before_def
    by (cases n1; cases n2) (auto simp: less_eq_prod_def)
qed

lemma sorted_distinct_group_before:
  "sorted (map order_key ks) \<Longrightarrow> distinct (map snd ks) \<Longrightarrow> sorted_wrt group_before ks"
proof (induction ks)
  case Nil
  then show ?case by simp
next
  case (Cons k ks)
  have "\<forall>z \<in> set ks. group_before k z"
  proof
    fix z assume z: "z \<in> set ks"
    with Cons.prems have "order_key k \<le> order_key z" "snd k \<noteq> snd z"
      by auto
    then show "group_before k z" by (rule order_key_group_before)
  qed
  with Cons show ?case by simp
qed

lemma file_groups_props:
  "distinct (map (\<lambda>(n, h, ms). h) (file_groups fs)) \<and>
   (\<lambda>(n, h, ms). h) ` set (file_groups fs) = (\<lambda>f. snd (extract_group_header f)) ` set fs \<and>
   (\<forall>(n, h, ms) \<in> set (file_groups fs).
      ms = filter (\<lambda>f. snd (extract_group_header f) = h) fs \<and>
      (\<forall>f \<in> set ms. extract_group_header f = (n, h))) \<and>
   sorted_wrt group_before (map (\<lambda>(n, h, ms). (n, h)) (file_groups fs))"
proof -
  define st where "st = foldl add_file \<lparr>groups = [], order_keys = []\<rparr> fs"
  define ks where "ks = sort_key order_key (order_keys st)"
  let ?hdr = "\<lambda>f. snd (extract_group_header f)"
  let ?files = "\<lambda>h. (case map_of (groups st) h of None \<Rightarrow> [] | Some (n, fs) \<Rightarrow> fs)"
  from add_file_loop[of fs] have inv:
    "distinct (map snd (order_keys st))"
    "snd ` set (order_keys st) = ?hdr ` set fs"
    "set (order_keys st) \<subseteq> extract_group_header ` set fs"
    "\<And>h. map_of (groups st) h =
        (if h \<in> ?hdr ` set fs
         then Some (fst (hd (filter (\<lambda>x. snd x = h) (order_keys st))),
                    filter (\<lambda>f. ?hdr f = h) fs)
         else None)"
    by (simp_all add: st_def Let_def)
  have fg: "file_groups fs = map (\<lambda>(n, h). (n, h, ?files h)) ks"
    by (simp add: file_groups_def st_def ks_def Let_def)
  have ks_set: "set ks = set (order_keys st)" by (simp add: ks_def)
  have ks_dist: "distinct (map snd ks)"
    using inv(1) by (simp add: ks_def distinct_map_sort_key)
  have ks_sorted: "sorted (map order_key ks)" by (simp add: ks_def)
  have m1: "map (\<lambda>(n, h, ms). h) (file_groups fs) = map snd ks"
    by (simp add: fg case_prod_unfold)
  have m2: "map (\<lambda>(n, h, ms). (n, h)) (file_groups fs) = ks"
    by (simp add: fg case_prod_unfold comp_def)
  have 1: "distinct (map (\<lambda>(n, h, ms). h) (file_groups fs))"
    using ks_dist by (simp only: m1)
  have "(\<lambda>(n, h, ms). h) ` set (file_groups fs) = set (map (\<lambda>(n, h, ms). h) (file_groups fs))"
    by simp
  also have "\<dots> = snd ` set ks" by (simp only: m1) simp
  finally have 2: "(\<lambda>(n, h, ms). h) ` set (file_groups fs) = ?hdr ` set fs"
    using inv(2) ks_set by simp
  have 3: "\<forall>(n, h, ms) \<in> set (file_groups fs).
      ms = filter (\<lambda>f. ?hdr f = h) fs \<and> (\<forall>f \<in> set ms. extract_group_header f = (n, h))"
  proof (clarify, intro conjI ballI)
    fix n h ms assume "(n, h, ms) \<in> set (file_groups fs)"
    then have k: "(n, h) \<in> set ks" and ms: "ms = ?files h"
      by (auto simp: fg)
    from k ks_set inv(3) obtain g where g: "g \<in> set fs" "extract_group_header g = (n, h)"
      by auto
    then have "h \<in> ?hdr ` set fs" by force
    with inv(4)[of h] ms show e: "ms = filter (\<lambda>f. ?hdr f = h) fs" by simp
    fix f assume "f \<in> set ms"
    with e have "?hdr f = h" by simp
    then obtain n' where "extract_group_header f = (n', h)"
      by (cases "extract_group_header f") auto
    with g(2) header_determines_number[of f n' h g n]
    show "extract_group_header f = (n, h)" by simp
  qed
  have 4: "sorted_wrt group_before (map (\<lambda>(n, h, ms). (n, h)) (file_groups fs))"
    using sorted_distinct_group_before[OF ks_sorted ks_dist] by (simp only: m2)
  from 1 2 3 4 show ?thesis by blast
qed

text \<open>
  The matcher against the pattern read as a grammar: a name matches with the groups
  \<open>num\<close> and \<open>q\<close> when it is \<open>num\<close>, \<open>.(\<close>, \<open>q\<close>, \<open>)_\<close>, a rest, the extension and at
  most one closing line feed; of all such readings the matcher takes the longest \<open>q\<close>.
\<close>

lemma query_split_Cons_Some:
  "query_split (pre @ [c]) cs = Some p \<Longrightarrow> query_split pre (c # cs) = Some p"
  by simp

lemma query_split_Cons_None:
  "query_split (pre @ [c]) cs = None \<Longrightarrow>
     query_split pre (c # cs) =
       (case cs of [] \<Rightarrow> None
        | u # rest \<Rightarrow> if pre \<noteq> [] \<and> c = CHR '')'' \<and> u = CHR ''_'' \<and> rest \<noteq> []
                     then Some (pre, rest) else None)"
  by simp

lemma query_split_sound:
  "query_split pre m = Some (q, rest) \<Longrightarrow>
     \<exists>q0. q = pre @ q0 \<and> m = q0 @ [CHR '')'', CHR ''_''] @ rest \<and> q \<noteq> [] \<and> rest \<noteq> []"
proof (induction m arbitrary: pre)
  case Nil
  then show ?case by simp
next
  case (Cons c cs)
  show ?case
  proof (cases "query_split (pre @ [c]) cs")
    case None
    from Cons.prems have e: "(case cs of [] \<Rightarrow> None
        | u # rest \<Rightarrow> if pre \<noteq> [] \<and> c = CHR '')'' \<and> u = CHR ''_'' \<and> rest \<noteq> []
                     then Some (pre, rest) else None) = Some (q, rest)"
      by (simp only: query_split_Cons_None[OF None])
    show ?thesis
    proof (cases cs)
      case Nil
      with e show ?thesis by simp
    next
      case (Cons u r)
      with e have "pre \<noteq> []" "c = CHR '')''" "u = CHR ''_''" "r \<noteq> []" "q = pre" "rest = r"
        by (simp_all split: if_splits)
      with Cons show ?thesis by (intro exI[of _ "[]"]) simp
    qed
  next
    case (Some p)
    with Cons.prems have "query_split (pre @ [c]) cs = Some (q, rest)"
      by (simp only: query_split_Cons_Some[OF Some])
    from Cons.IH[OF this] obtain q0 where
      "q = (pre @ [c]) @ q0" "cs = q0 @ [CHR '')'', CHR ''_''] @ rest" "q \<noteq> []" "rest \<noteq> []" by blast
    then show ?thesis by (intro exI[of _ "c # q0"]) simp
  qed
qed

lemma query_split_greedy:
  "m = q0 @ [CHR '')'', CHR ''_''] @ rest \<Longrightarrow> pre @ q0 \<noteq> [] \<Longrightarrow> rest \<noteq> [] \<Longrightarrow>
     \<exists>q' rest'. query_split pre m = Some (q', rest') \<and> length (pre @ q0) \<le> length q'"
proof (induction m arbitrary: pre q0)
  case Nil
  then show ?case by simp
next
  case (Cons c cs)
  show ?case
  proof (cases "query_split (pre @ [c]) cs")
    case (Some p)
    obtain q' rest' where p: "p = (q', rest')" by (cases p)
    from query_split_sound[of "pre @ [c]" cs q' rest'] Some p
    obtain q1 where q1: "q' = (pre @ [c]) @ q1" "cs = q1 @ [CHR '')'', CHR ''_''] @ rest'" by auto
    have r: "query_split pre (c # cs) = Some (q', rest')"
      using query_split_Cons_Some[OF Some] p by simp
    show ?thesis
    proof (cases q0)
      case Nil
      with q1(1) r show ?thesis by simp
    next
      case C: (Cons d q2)
      with Cons.prems(1) have cs: "cs = q2 @ [CHR '')'', CHR ''_''] @ rest" by simp
      from Cons.IH[OF cs, of "pre @ [c]"] Cons.prems(3) obtain q'' rest'' where
        "query_split (pre @ [c]) cs = Some (q'', rest'')" "length ((pre @ [c]) @ q2) \<le> length q''"
        by auto
      with Some p C r show ?thesis by simp
    qed
  next
    case None
    note r = query_split_Cons_None[OF None]
    show ?thesis
    proof (cases q0)
      case Nil
      with Cons.prems have c: "c = CHR '')''" "cs = CHR ''_'' # rest" "pre \<noteq> []" by simp_all
      have "(case cs of [] \<Rightarrow> None
        | u # rest \<Rightarrow> if pre \<noteq> [] \<and> c = CHR '')'' \<and> u = CHR ''_'' \<and> rest \<noteq> []
                     then Some (pre, rest) else None) = Some (pre, rest)"
        using c Cons.prems(3) by simp
      with r have "query_split pre (c # cs) = Some (pre, rest)"
        by (rule trans)
      with Nil show ?thesis by simp
    next
      case C: (Cons d q2)
      with Cons.prems(1) have cs: "cs = q2 @ [CHR '')'', CHR ''_''] @ rest" by simp
      from Cons.IH[OF cs, of "pre @ [c]"] Cons.prems(3) obtain q'' rest'' where
        "query_split (pre @ [c]) cs = Some (q'', rest'')"
        by auto
      with None show ?thesis by simp
    qed
  qed
qed

lemma lower_char_NL: "lower_char NL = NL"
  by (simp add: lower_char_def NL_def upper_letters_def lower_letters_def latin_upper_def latin_lower_def)

lemma ris_extension: "lower ext = ''.ris'' \<Longrightarrow> length ext = 4 \<and> last ext \<noteq> NL"
proof -
  assume a: "lower ext = ''.ris''"
  then have "length (lower ext) = 4" by simp
  then have l: "length ext = 4" by (simp add: lower_def)
  then have "ext \<noteq> []" by auto
  then have "lower_char (last ext) = last (lower ext)"
    by (simp add: lower_def last_map)
  with a have "lower_char (last ext) = CHR ''s''" by simp
  then have "last ext \<noteq> NL" using lower_char_NL by (auto simp: NL_def)
  with l show ?thesis by simp
qed

lemma fname_body_match_sound:
  assumes "fname_body_match r1 = Some q"
  shows "\<exists>rest ext nl. r1 = q @ [CHR '')'', CHR ''_''] @ rest @ ext @ nl \<and> q \<noteq> [] \<and> rest \<noteq> [] \<and>
           NL \<notin> set q \<and> NL \<notin> set rest \<and> lower ext = ''.ris'' \<and> (nl = [] \<or> nl = [NL])"
proof -
  define e where "e = (if r1 \<noteq> [] \<and> last r1 = NL then butlast r1 else r1)"
  define m where "m = take (length e - 4) e"
  define ext where "ext = drop (length e - 4) e"
  define nl where "nl = (if r1 \<noteq> [] \<and> last r1 = NL then [NL] else [])"
  have unf: "fname_body_match r1 =
      (if 4 \<le> length e \<and> lower ext = ''.ris'' \<and> NL \<notin> set m
       then map_option fst (query_split [] m) else None)"
    by (simp add: fname_body_match_def Let_def e_def m_def ext_def)
  with assms have c: "4 \<le> length e" "lower ext = ''.ris''" "NL \<notin> set m"
    and "map_option fst (query_split [] m) = Some q"
    by (simp_all split: if_splits)
  then obtain rest where qs: "query_split [] m = Some (q, rest)"
    by (cases "query_split [] m") auto
  from query_split_sound[OF qs] have m: "m = q @ [CHR '')'', CHR ''_''] @ rest" "q \<noteq> []" "rest \<noteq> []"
    by auto
  have "r1 = e @ nl"
  proof (cases "r1 \<noteq> [] \<and> last r1 = NL")
    case True
    then have "butlast r1 @ [NL] = r1" by (metis append_butlast_last_id)
    with True show ?thesis by (simp add: e_def nl_def)
  next
    case False
    then show ?thesis by (auto simp: e_def nl_def)
  qed
  moreover have "e = m @ ext" by (simp add: m_def ext_def)
  ultimately have "r1 = q @ [CHR '')'', CHR ''_''] @ rest @ ext @ nl"
    using m(1) by simp
  moreover from c(3) m(1) have "NL \<notin> set q" "NL \<notin> set rest" by auto
  moreover have "nl = [] \<or> nl = [NL]" by (simp add: nl_def)
  ultimately show ?thesis using m(2,3) c(2) by blast
qed

lemma fname_body_match_greedy:
  assumes "q \<noteq> []" "rest \<noteq> []" "NL \<notin> set q" "NL \<notin> set rest" "lower ext = ''.ris''"
    "nl = [] \<or> nl = [NL]"
  shows "\<exists>q'. fname_body_match (q @ [CHR '')'', CHR ''_''] @ rest @ ext @ nl) = Some q' \<and> length q \<le> length q'"
proof -
  let ?r1 = "q @ [CHR '')'', CHR ''_''] @ rest @ ext @ nl"
  let ?e = "q @ [CHR '')'', CHR ''_''] @ rest @ ext"
  let ?m = "q @ [CHR '')'', CHR ''_''] @ rest"
  from ris_extension[OF assms(5)] have ext: "length ext = 4" "last ext \<noteq> NL" "ext \<noteq> []"
    by auto
  have e: "(if ?r1 \<noteq> [] \<and> last ?r1 = NL then butlast ?r1 else ?r1) = ?e"
  proof (cases "nl = []")
    case True
    with ext show ?thesis by simp
  next
    case False
    with assms(6) have "nl = [NL]" by simp
    then show ?thesis by (simp add: butlast_append)
  qed
  have m: "take (length ?e - 4) ?e = ?m" "drop (length ?e - 4) ?e = ext" "4 \<le> length ?e"
    using ext(1) by simp_all
  have nlm: "NL \<notin> set ?m" using assms(3,4) by (simp add: NL_def)
  from query_split_greedy[of ?m q rest "[]"] assms(1,2) obtain q' rest' where
    qs: "query_split [] ?m = Some (q', rest')" "length q \<le> length q'" by auto
  have "fname_body_match ?r1 = Some q'"
    unfolding fname_body_match_def e Let_def m(1,2)
    using m(3) assms(5) nlm qs(1) by simp
  with qs(2) show ?thesis by blast
qed

lemma fname_match_Nil: "takeWhile isdigit name = [] \<Longrightarrow> fname_match name = None"
  by (simp add: fname_match_def)

lemma fname_match_short1: "dropWhile isdigit name = [] \<Longrightarrow> fname_match name = None"
  by (simp add: fname_match_def Let_def del: dropWhile_eq_Nil_conv)

lemma fname_match_short2: "dropWhile isdigit name = [d] \<Longrightarrow> fname_match name = None"
  by (simp add: fname_match_def Let_def)

lemma fname_match_long:
  "takeWhile isdigit name \<noteq> [] \<Longrightarrow> dropWhile isdigit name = d # p # r1 \<Longrightarrow>
     fname_match name =
       (if d = CHR ''.'' \<and> p = CHR ''(''
        then map_option (Pair (takeWhile isdigit name)) (fname_body_match r1) else None)"
  by (simp add: fname_match_def Let_def)

lemma fname_match_sound:
  assumes "fname_match name = Some (num, q)"
  shows "\<exists>rest ext nl. name = num @ ''.('' @ q @ '')_'' @ rest @ ext @ nl \<and>
           num \<noteq> [] \<and> list_all isdigit num \<and> q \<noteq> [] \<and> rest \<noteq> [] \<and>
           NL \<notin> set q \<and> NL \<notin> set rest \<and> lower ext = ''.ris'' \<and> (nl = [] \<or> nl = [NL])"
proof -
  have ne: "takeWhile isdigit name \<noteq> []"
    using assms fname_match_Nil[of name] by auto
  obtain d p r1 where r0: "dropWhile isdigit name = d # p # r1"
  proof (cases "dropWhile isdigit name")
    case Nil
    with assms fname_match_short1[of name] show ?thesis by simp
  next
    case (Cons d ys)
    show ?thesis
    proof (cases ys)
      case Nil
      with Cons assms fname_match_short2[of name d] show ?thesis by simp
    next
      case C: (Cons p r1)
      with Cons that show ?thesis by simp
    qed
  qed
  note u = fname_match_long[OF ne r0]
  have dp: "d = CHR ''.'' \<and> p = CHR ''(''"
  proof (rule ccontr)
    assume "\<not> (d = CHR ''.'' \<and> p = CHR ''('')"
    then have "fname_match name = None" using u by auto
    with assms show False by simp
  qed
  then have "fname_match name = map_option (Pair (takeWhile isdigit name)) (fname_body_match r1)"
    using u by simp
  with assms have b: "map_option (Pair (takeWhile isdigit name)) (fname_body_match r1) = Some (num, q)"
    by simp
  then have num: "num = takeWhile isdigit name" and q: "fname_body_match r1 = Some q"
    by (cases "fname_body_match r1"; simp)+
  from fname_body_match_sound[OF q] obtain rest ext nl where
    d: "r1 = q @ '')_'' @ rest @ ext @ nl" "q \<noteq> []" "rest \<noteq> []"
       "NL \<notin> set q" "NL \<notin> set rest" "lower ext = ''.ris''" "nl = [] \<or> nl = [NL]"
    by blast
  have "name = takeWhile isdigit name @ dropWhile isdigit name" by simp
  then have "name = num @ d # p # r1"
    by (simp only: r0 num)
  with dp d(1) have "name = num @ ''.('' @ q @ '')_'' @ rest @ ext @ nl"
    by simp
  moreover have "list_all isdigit num"
    unfolding num list_all_iff by (auto dest: set_takeWhileD)
  moreover have "num \<noteq> []" using ne num by simp
  ultimately show ?thesis using d(2-7) by blast
qed

lemma fname_match_greedy:
  assumes "name = num @ ''.('' @ q @ [CHR '')'', CHR ''_''] @ rest @ ext @ nl"
    and "num \<noteq> []" "list_all isdigit num" "q \<noteq> []" "rest \<noteq> []"
    and "NL \<notin> set q" "NL \<notin> set rest" "lower ext = ''.ris''" "nl = [] \<or> nl = [NL]"
  shows "\<exists>q'. fname_match name = Some (num, q') \<and> length q \<le> length q'"
proof -
  let ?r1 = "q @ [CHR '')'', CHR ''_''] @ rest @ ext @ nl"
  have nd: "\<not> isdigit (CHR ''.'')" by (simp add: isdigit_def)
  have name: "name = num @ CHR ''.'' # CHR ''('' # ?r1" using assms(1) by simp
  have tw: "takeWhile isdigit name = num"
    unfolding name using assms(3) nd by (simp add: takeWhile_tail list_all_iff)
  have dw: "dropWhile isdigit name = CHR ''.'' # CHR ''('' # ?r1"
    unfolding name using assms(3) nd by (simp add: dropWhile_append3 list_all_iff)
  from fname_body_match_greedy[OF assms(4-9)] obtain q' where
    q': "fname_body_match ?r1 = Some q'" "length q \<le> length q'" by blast
  have "fname_match name = Some (num, q')"
    unfolding fname_match_def tw dw Let_def using assms(2) q'(1) by simp
  with q'(2) show ?thesis by blast
qed

text \<open>
  C8. A file name that matches the grouping convention (digits, \<open>.(\<close>, a query label,
  \<open>)_\<close>, a rest and the extension \<open>.ris\<close> in any case) gets the header made of the
  integer and the label, with the integer as sort key; any other name gets the header
  \<open>FILE:\<close> and the name, with no sort key. Files with the same header form one group,
  holding them in input order; the two \<open>2.(Cats)\<close> files merge. The groups are ordered
  with the numbered ones first, by integer and then by header, followed by the groups
  without a number, by header.
\<close>

theorem file_groups_merged_and_ordered:
  "(\<forall>num q. fname_match name = Some (num, q) \<longrightarrow>
      extract_group_header name =
        (Some (int_of_digits num), str_of_nat (int_of_digits num) @ ''.('' @ q @ '')'') \<and>
      (\<exists>rest ext nl. name = num @ ''.('' @ q @ '')_'' @ rest @ ext @ nl \<and>
           num \<noteq> [] \<and> list_all isdigit num \<and> q \<noteq> [] \<and> rest \<noteq> [] \<and>
           NL \<notin> set q \<and> NL \<notin> set rest \<and> lower ext = ''.ris'' \<and> (nl = [] \<or> nl = [NL]))) \<and>
   (fname_match name = None \<longrightarrow>
      extract_group_header name = (None, ''FILE: '' @ name) \<and>
      \<not> (\<exists>num q rest ext nl. name = num @ ''.('' @ q @ '')_'' @ rest @ ext @ nl \<and>
           num \<noteq> [] \<and> list_all isdigit num \<and> q \<noteq> [] \<and> rest \<noteq> [] \<and>
           NL \<notin> set q \<and> NL \<notin> set rest \<and> lower ext = ''.ris'' \<and> (nl = [] \<or> nl = [NL]))) \<and>
   distinct (map (\<lambda>(n, h, ms). h) (file_groups fs)) \<and>
   (\<lambda>(n, h, ms). h) ` set (file_groups fs) = (\<lambda>f. snd (extract_group_header f)) ` set fs \<and>
   (\<forall>(n, h, ms) \<in> set (file_groups fs).
      ms = filter (\<lambda>f. snd (extract_group_header f) = h) fs \<and>
      (\<forall>f \<in> set ms. extract_group_header f = (n, h))) \<and>
   sorted_wrt group_before (map (\<lambda>(n, h, ms). (n, h)) (file_groups fs)) \<and>
   file_groups [''2.(Cats)_0-100.ris'', ''2.(Cats)_all.ris'']
     = [(Some 2, ''2.(Cats)'', [''2.(Cats)_0-100.ris'', ''2.(Cats)_all.ris''])]"
proof -
  have a: "\<forall>num q. fname_match name = Some (num, q) \<longrightarrow>
      extract_group_header name =
        (Some (int_of_digits num), str_of_nat (int_of_digits num) @ ''.('' @ q @ '')'') \<and>
      (\<exists>rest ext nl. name = num @ ''.('' @ q @ '')_'' @ rest @ ext @ nl \<and>
           num \<noteq> [] \<and> list_all isdigit num \<and> q \<noteq> [] \<and> rest \<noteq> [] \<and>
           NL \<notin> set q \<and> NL \<notin> set rest \<and> lower ext = ''.ris'' \<and> (nl = [] \<or> nl = [NL]))"
  proof (intro allI impI conjI)
    fix num q assume m: "fname_match name = Some (num, q)"
    then show "extract_group_header name =
        (Some (int_of_digits num), str_of_nat (int_of_digits num) @ ''.('' @ q @ '')'')"
      by (simp add: extract_group_header_def Let_def)
    from fname_match_sound[OF m]
    show "\<exists>rest ext nl. name = num @ ''.('' @ q @ '')_'' @ rest @ ext @ nl \<and>
           num \<noteq> [] \<and> list_all isdigit num \<and> q \<noteq> [] \<and> rest \<noteq> [] \<and>
           NL \<notin> set q \<and> NL \<notin> set rest \<and> lower ext = ''.ris'' \<and> (nl = [] \<or> nl = [NL])" .
  qed
  have b: "fname_match name = None \<longrightarrow>
      extract_group_header name = (None, ''FILE: '' @ name) \<and>
      \<not> (\<exists>num q rest ext nl. name = num @ ''.('' @ q @ '')_'' @ rest @ ext @ nl \<and>
           num \<noteq> [] \<and> list_all isdigit num \<and> q \<noteq> [] \<and> rest \<noteq> [] \<and>
           NL \<notin> set q \<and> NL \<notin> set rest \<and> lower ext = ''.ris'' \<and> (nl = [] \<or> nl = [NL]))"
  proof (intro impI conjI notI)
    assume n: "fname_match name = None"
    then show "extract_group_header name = (None, ''FILE: '' @ name)"
      by (simp add: extract_group_header_def)
    assume "\<exists>num q rest ext nl. name = num @ ''.('' @ q @ '')_'' @ rest @ ext @ nl \<and>
           num \<noteq> [] \<and> list_all isdigit num \<and> q \<noteq> [] \<and> rest \<noteq> [] \<and>
           NL \<notin> set q \<and> NL \<notin> set rest \<and> lower ext = ''.ris'' \<and> (nl = [] \<or> nl = [NL])"
    then obtain num q rest ext nl where "name = num @ ''.('' @ q @ '')_'' @ rest @ ext @ nl"
      "num \<noteq> []" "list_all isdigit num" "q \<noteq> []" "rest \<noteq> []"
      "NL \<notin> set q" "NL \<notin> set rest" "lower ext = ''.ris''" "nl = [] \<or> nl = [NL]"
      by blast
    from fname_match_greedy[OF this] n show False by simp
  qed
  have h1: "extract_group_header ''2.(Cats)_0-100.ris'' = (Some 2, ''2.(Cats)'')"
    by code_simp
  have h2: "extract_group_header ''2.(Cats)_all.ris'' = (Some 2, ''2.(Cats)'')"
    by code_simp
  have c: "file_groups [''2.(Cats)_0-100.ris'', ''2.(Cats)_all.ris'']
     = [(Some 2, ''2.(Cats)'', [''2.(Cats)_0-100.ris'', ''2.(Cats)_all.ris''])]"
    by (simp add: file_groups_def add_file_def h1 h2 Let_def)
  note p = file_groups_props[of fs]
  show ?thesis
    by (rule conjI[OF a conjI[OF b conjI[OF p[THEN conjunct1]
          conjI[OF p[THEN conjunct2, THEN conjunct1]
          conjI[OF p[THEN conjunct2, THEN conjunct2, THEN conjunct1]
          conjI[OF p[THEN conjunct2, THEN conjunct2, THEN conjunct2] c]]]]]])
qed

theorem file_groups_merged_and_ordered_witness:
  "sorted_wrt group_before (map (\<lambda>(n, h, ms). (n, h))
     (file_groups [''10.(Dogs)_a.ris'', ''2.(Cats)_0-100.ris'', ''zeta.ris'', ''2.(Cats)_all.RIS'',
                   ''Alpha.ris'', ''2.(Birds)_x.ris''])) \<and>
   file_groups [''10.(Dogs)_a.ris'', ''2.(Cats)_0-100.ris'', ''zeta.ris'', ''2.(Cats)_all.RIS'',
                ''Alpha.ris'', ''2.(Birds)_x.ris'']
     = [(Some 2, ''2.(Birds)'', [''2.(Birds)_x.ris'']),
        (Some 2, ''2.(Cats)'', [''2.(Cats)_0-100.ris'', ''2.(Cats)_all.RIS'']),
        (Some 10, ''10.(Dogs)'', [''10.(Dogs)_a.ris'']),
        (None, ''FILE: Alpha.ris'', [''Alpha.ris'']),
        (None, ''FILE: zeta.ris'', [''zeta.ris''])]"
proof -
  let ?fs = "[''10.(Dogs)_a.ris'', ''2.(Cats)_0-100.ris'', ''zeta.ris'', ''2.(Cats)_all.RIS'',
              ''Alpha.ris'', ''2.(Birds)_x.ris'']"
  have h: "extract_group_header ''10.(Dogs)_a.ris'' = (Some 10, ''10.(Dogs)'')"
    "extract_group_header ''2.(Cats)_0-100.ris'' = (Some 2, ''2.(Cats)'')"
    "extract_group_header ''zeta.ris'' = (None, ''FILE: zeta.ris'')"
    "extract_group_header ''2.(Cats)_all.RIS'' = (Some 2, ''2.(Cats)'')"
    "extract_group_header ''Alpha.ris'' = (None, ''FILE: Alpha.ris'')"
    "extract_group_header ''2.(Birds)_x.ris'' = (Some 2, ''2.(Birds)'')"
    by code_simp+
  have "sorted_wrt group_before (map (\<lambda>(n, h, ms). (n, h)) (file_groups ?fs))"
    by (rule file_groups_merged_and_ordered[of "[]" ?fs, THEN conjunct2, THEN conjunct2,
          THEN conjunct2, THEN conjunct2, THEN conjunct2, THEN conjunct1])
  moreover have "file_groups ?fs
     = [(Some 2, ''2.(Birds)'', [''2.(Birds)_x.ris'']),
        (Some 2, ''2.(Cats)'', [''2.(Cats)_0-100.ris'', ''2.(Cats)_all.RIS'']),
        (Some 10, ''10.(Dogs)'', [''10.(Dogs)_a.ris'']),
        (None, ''FILE: Alpha.ris'', [''Alpha.ris'']),
        (None, ''FILE: zeta.ris'', [''zeta.ris''])]"
    by (simp add: file_groups_def add_file_def h Let_def order_key_def)
  ultimately show ?thesis by (rule conjI)
qed

section \<open>Properties of the Pipeline Orchestrator\<close>

lemma ex_conj_fst_snd: "\<exists>x. P x \<and> Q x \<and> R x \<Longrightarrow> \<exists>x. P x \<and> Q x"
  by blast

lemma no_empty_list_add_value: "no_empty_list cur \<Longrightarrow> no_empty_list (add_value t v cur)"
  by (auto simp: no_empty_list_def add_value_def update_conv' split: option.splits ris_value.splits)

lemma no_empty_list_continuation:
  "no_empty_list cur \<Longrightarrow> \<exists>cur'. continuation lt line cur = Inr cur' \<and> no_empty_list cur'"
  by (auto simp: no_empty_list_def continuation_def update_conv' split: option.splits ris_value.splits)

lemma process_line_total:
  assumes "no_empty_list (current st)"
  shows "\<exists>st'. process_line st raw = Inr st' \<and> no_empty_list (current st')"
proof (cases "tag_line (rstrip_crlf raw)")
  case None
  show ?thesis
  proof (cases "last_tag st")
    case N: None
    with None assms show ?thesis by (simp add: process_line_def)
  next
    case (Some lt)
    from no_empty_list_continuation[OF assms, of lt "rstrip_crlf raw"] obtain cur' where
      "continuation lt (rstrip_crlf raw) (current st) = Inr cur'" "no_empty_list cur'" by blast
    with None Some assms show ?thesis by (simp add: process_line_def Let_def)
  qed
next
  case (Some p)
  obtain t v where "p = (t, v)" by (cases p)
  with Some assms no_empty_list_add_value[of "current st" "strip t" "strip v"]
  have "process_line st raw = Inr (start_new (finish_one (st\<lparr>last_tag := Some (strip t)\<rparr>))) \<or>
        process_line st raw = Inr (st\<lparr>last_tag := Some (strip t),
                                       current := add_value (strip t) (strip v) (current st)\<rparr>)"
    by (simp add: process_line_def Let_def)
  moreover have "no_empty_list (current (start_new (finish_one (st\<lparr>last_tag := Some (strip t)\<rparr>))))"
    by (simp add: start_new_def finish_one_def Let_def no_empty_list_def)
  moreover have "no_empty_list (current (st\<lparr>last_tag := Some (strip t),
                                       current := add_value (strip t) (strip v) (current st)\<rparr>))"
    using no_empty_list_add_value[OF assms] by simp
  ultimately show ?thesis by auto
qed

lemma process_lines_total:
  "no_empty_list (current st) \<Longrightarrow> \<exists>st'. process_lines st raws = Inr st'"
proof (induction raws arbitrary: st)
  case Nil
  then show ?case by simp
next
  case (Cons raw raws)
  from process_line_total[OF Cons.prems, of raw] obtain st1 where
    "process_line st raw = Inr st1" "no_empty_list (current st1)" by blast
  with Cons.IH[of st1] show ?case by simp
qed

lemma parse_ris_file_total: "\<exists>recs. parse_ris_file raws = Inr recs"
proof -
  have "no_empty_list (current initial_state)"
    by (simp add: initial_state_def no_empty_list_def)
  from process_lines_total[OF this, of raws] show ?thesis
    by (auto simp: parse_ris_file_def)
qed

lemma group_frames_rows:
  "group_frames netloc title read index_name header fs =
     Inr (map (\<lambda>f. map (with_group header) (file_rows netloc title read index_name f)) fs)"
proof (induction fs)
  case Nil
  then show ?case by simp
next
  case (Cons f fs)
  from parse_ris_file_total[of "read f"] obtain recs where "parse_ris_file (read f) = Inr recs"
    by blast
  with Cons show ?case by (simp add: file_rows_def)
qed

lemma concat_group_frames:
  "concat (map (\<lambda>f. map (with_group (fst g)) (file_rows netloc title read index_name f)) (snd g))
     = group_rows netloc title read index_name g"
  by (simp add: group_rows_def map_concat comp_def)

lemma group_rows_plain:
  "\<forall>r \<in> set (group_rows netloc title read index_name g). plain_year (Year r)"
  by (auto simp: group_rows_def file_rows_def ris_records_to_rows_def record_to_row_def
        with_group_def Let_def year_from_any_plain split: sum.splits)

lemma group_rows_filtered:
  "apply_filters (group_rows netloc title read index_name g) min_year max_year only_terms
     = Inr (stated_filter (group_rows netloc title read index_name g) min_year max_year only_terms)"
  by (rule apply_filters_plain) (rule group_rows_plain)

lemma process_group_raw:
  assumes "\<not> (group_rows netloc title read index_name g = [] \<and> bound_set min_year max_year)"
  shows "\<exists>st'. process_group netloc title read index_name min_year max_year only_terms do_dedup st g = Inr st' \<and>
           raw_rows st' = raw_rows st @
             [group_output netloc title read index_name min_year max_year only_terms do_dedup g]"
proof -
  let ?rows = "group_rows netloc title read index_name g"
  let ?filtered = "stated_filter ?rows min_year max_year only_terms"
  have d: "(if do_dedup \<and> ?filtered \<noteq> [] then deduplicate ?filtered else ?filtered)
      = group_output netloc title read index_name min_year max_year only_terms do_dedup g"
    by (auto simp: group_output_def Let_def deduplicate_def)
  from assms have k: "\<not> (?rows = [] \<and> (min_year \<noteq> None \<or> max_year \<noteq> None))"
    by (simp add: bound_set_def)
  obtain frames where fr: "group_frames netloc title read index_name (fst g) (snd g) = Inr frames"
    "concat frames = ?rows"
    using group_frames_rows[of netloc title read index_name "fst g" "snd g"]
      concat_group_frames[of g netloc title read index_name] by simp
  have af: "apply_filters ?rows min_year max_year only_terms = Inr ?filtered"
    by (rule group_rows_filtered)
  from k have "process_group netloc title read index_name min_year max_year only_terms do_dedup st g =
      Inr (let st3 = st\<lparr>output_rows := output_rows st @ [header_row (fst g)],
                        total_parsed := total_parsed st + length ?rows,
                        total_kept_after_filters := total_kept_after_filters st + length ?filtered\<rparr>;
               deduped = (if do_dedup \<and> ?filtered \<noteq> [] then deduplicate ?filtered else ?filtered);
               st4 = (if do_dedup \<and> ?filtered \<noteq> []
                      then st3\<lparr>total_dedup_removed :=
                                 total_dedup_removed st3 + (length ?filtered - length deduped)\<rparr>
                      else st3)
           in st4\<lparr>output_rows := output_rows st4 @ map out_cols deduped @ [blank_row],
                   raw_rows := raw_rows st4 @ [deduped]\<rparr>)"
    by (simp add: process_group_def Let_def fr af del: not_None_eq)
  then show ?thesis
    unfolding d Let_def by (simp split: if_splits)
qed

lemma process_groups_raw:
  assumes "\<forall>g \<in> set gs. \<not> (group_rows netloc title read index_name g = [] \<and> bound_set min_year max_year)"
  shows "\<exists>st'. process_groups
             (process_group netloc title read index_name min_year max_year only_terms do_dedup) st gs = Inr st' \<and>
           raw_rows st' = raw_rows st @
             map (group_output netloc title read index_name min_year max_year only_terms do_dedup) gs"
  using assms
proof (induction gs arbitrary: st)
  case Nil
  then show ?case by simp
next
  case (Cons g gs)
  from Cons.prems have "\<not> (group_rows netloc title read index_name g = [] \<and> bound_set min_year max_year)"
    by simp
  from process_group_raw[OF this, of only_terms do_dedup st] obtain st1 where
    1: "process_group netloc title read index_name min_year max_year only_terms do_dedup st g = Inr st1"
       "raw_rows st1 = raw_rows st @
          [group_output netloc title read index_name min_year max_year only_terms do_dedup g]"
    by blast
  from Cons.IH[of st1] Cons.prems obtain st' where
    "process_groups (process_group netloc title read index_name min_year max_year only_terms do_dedup) st1 gs
       = Inr st'"
    "raw_rows st' = raw_rows st1 @
       map (group_output netloc title read index_name min_year max_year only_terms do_dedup) gs"
    by auto
  with 1 show ?case by simp
qed

lemma build_raw_results:
  assumes "files \<noteq> []"
    and "\<forall>g \<in> set (folder_groups files).
           \<not> (group_rows netloc title read (index_name_of index_name0 dir_name) g = [] \<and>
              bound_set min_year max_year)"
  shows "\<exists>res. build_grouped_excel_for_folder netloc title read dir_name files out_dir index_name0
             min_year max_year only_terms do_dedup = Inr (Some res) \<and>
           raw_results res = concat (map
             (group_output netloc title read (index_name_of index_name0 dir_name)
                min_year max_year only_terms do_dedup) (folder_groups files))"
proof -
  from process_groups_raw[OF assms(2), of only_terms do_dedup
      "\<lparr>output_rows = [], raw_rows = [], total_parsed = 0,
        total_kept_after_filters = 0, total_dedup_removed = 0\<rparr>"]
  obtain st' where
    "process_groups (process_group netloc title read (index_name_of index_name0 dir_name)
        min_year max_year only_terms do_dedup)
       \<lparr>output_rows = [], raw_rows = [], total_parsed = 0,
        total_kept_after_filters = 0, total_dedup_removed = 0\<rparr> (folder_groups files) = Inr st'"
    "raw_rows st' = map (group_output netloc title read (index_name_of index_name0 dir_name)
        min_year max_year only_terms do_dedup) (folder_groups files)"
    by auto
  with assms(1) show ?thesis
    by (simp add: build_grouped_excel_for_folder_def Let_def)
qed

lemma deduplicate_set: "set (deduplicate df) \<subseteq> set df"
  using drop_duplicates_set[of DOI "filter doi_nonempty df"]
    drop_duplicates_set[of triple "filter (\<lambda>r. \<not> doi_nonempty r) df"]
  by (auto simp: deduplicate_parts)

lemma stated_filter_set: "set (stated_filter df min_year max_year only_terms) \<subseteq> set df"
  by (simp add: stated_filter_def)

lemma group_rows_group: "a \<in> set (group_rows netloc title read index_name g) \<Longrightarrow> row_group a = fst g"
  by (auto simp: group_rows_def with_group_def)

lemma folder_groups_headers: "distinct (map fst (folder_groups files))"
proof -
  have "map fst (folder_groups files) = map (\<lambda>(n, h, ms). h) (file_groups files)"
    by (simp add: folder_groups_def case_prod_unfold comp_def)
  with file_groups_props[of files] show ?thesis by simp
qed

lemma folder_groups_differ:
  assumes "g1 \<in> set (folder_groups files)" "g2 \<in> set (folder_groups files)" "g1 \<noteq> g2"
  shows "fst g1 \<noteq> fst g2"
  using folder_groups_headers[of files] assms
  by (meson distinct_map inj_onD)

text \<open>
  C10. With deduplication enabled the orchestrator deduplicates the rows of each group
  on their own: the raw view is the concatenation, group after group, of the
  deduplicated rows of the group that pass the filters. So a row that its own group retains is in the
  raw view whatever the other groups hold, and two rows retained by different groups
  are both there, as different rows, also when they agree on the DOI or on title, year
  and author name. The run returns provided no group is without rows while a year bound
  is set.
\<close>

theorem deduplication_is_per_group:
  assumes "files \<noteq> []"
    and "\<forall>g \<in> set (folder_groups files).
           \<not> (group_rows netloc title read (index_name_of index_name0 dir_name) g = [] \<and>
              bound_set min_year max_year)"
  shows "\<exists>res. build_grouped_excel_for_folder netloc title read dir_name files out_dir index_name0
             min_year max_year only_terms True = Inr (Some res) \<and>
           raw_results res = concat (map
             (\<lambda>g. deduplicate (stated_filter
                     (group_rows netloc title read (index_name_of index_name0 dir_name) g)
                     min_year max_year only_terms)) (folder_groups files)) \<and>
           (\<forall>g1 \<in> set (folder_groups files). \<forall>g2 \<in> set (folder_groups files). \<forall>a b.
              a \<in> set (deduplicate (stated_filter
                     (group_rows netloc title read (index_name_of index_name0 dir_name) g1)
                     min_year max_year only_terms)) \<and>
              b \<in> set (deduplicate (stated_filter
                     (group_rows netloc title read (index_name_of index_name0 dir_name) g2)
                     min_year max_year only_terms)) \<and> g1 \<noteq> g2 \<longrightarrow>
              a \<in> set (raw_results res) \<and> b \<in> set (raw_results res) \<and> a \<noteq> b)"
proof -
  let ?out = "\<lambda>g. deduplicate (stated_filter
                     (group_rows netloc title read (index_name_of index_name0 dir_name) g)
                     min_year max_year only_terms)"
  have o: "group_output netloc title read (index_name_of index_name0 dir_name)
             min_year max_year only_terms True = ?out"
    by (rule ext) (simp add: group_output_def)
  from build_raw_results[OF assms, of out_dir only_terms True] obtain res where
    res: "build_grouped_excel_for_folder netloc title read dir_name files out_dir index_name0
             min_year max_year only_terms True = Inr (Some res)"
         "raw_results res = concat (map ?out (folder_groups files))"
    unfolding o by blast
  have "\<forall>g1 \<in> set (folder_groups files). \<forall>g2 \<in> set (folder_groups files). \<forall>a b.
              a \<in> set (?out g1) \<and> b \<in> set (?out g2) \<and> g1 \<noteq> g2 \<longrightarrow>
              a \<in> set (raw_results res) \<and> b \<in> set (raw_results res) \<and> a \<noteq> b"
  proof (intro ballI allI impI)
    fix g1 g2 a b
    assume g: "g1 \<in> set (folder_groups files)" "g2 \<in> set (folder_groups files)"
      and h: "a \<in> set (?out g1) \<and> b \<in> set (?out g2) \<and> g1 \<noteq> g2"
    from g h have in_raw: "a \<in> set (raw_results res)" "b \<in> set (raw_results res)"
      by (auto simp: res(2))
    from h have "a \<in> set (group_rows netloc title read (index_name_of index_name0 dir_name) g1)"
      using deduplicate_set stated_filter_set by blast
    then have ga: "row_group a = fst g1" by (rule group_rows_group)
    from h have "b \<in> set (group_rows netloc title read (index_name_of index_name0 dir_name) g2)"
      using deduplicate_set stated_filter_set by blast
    then have gb: "row_group b = fst g2" by (rule group_rows_group)
    from folder_groups_differ[OF g] h have "fst g1 \<noteq> fst g2" by simp
    with ga gb have "a \<noteq> b" by auto
    with in_raw show "a \<in> set (raw_results res) \<and> b \<in> set (raw_results res) \<and> a \<noteq> b"
      by simp
  qed
  with res show ?thesis by blast
qed

theorem deduplication_is_per_group_witness:
  "\<forall>netloc title.
     (\<exists>res. build_grouped_excel_for_folder netloc title
         (\<lambda>f. if f = ''1.(A)_x.ris''
               then [''TI  - Paper'', ''AU  - Doe, J'', ''DO  - 10.1109/A'', ''ER  - '',
                     ''TI  - Paper again'', ''DO  - 10.1109/A'', ''ER  - '']
               else [''TI  - Paper'', ''DO  - 10.1109/A'', ''ER  - ''])
         ''scopus_exports'' [''1.(A)_x.ris'', ''2.(B)_y.ris''] ''outputs'' None None None [] True
       = Inr (Some res) \<and>
       map DOI (raw_results res) = [''10.1109/A'', ''10.1109/A''] \<and>
       map row_group (raw_results res) = [''1.(A)'', ''2.(B)''])"
proof (intro allI)
  fix netloc :: "string \<Rightarrow> py_error + string" and title :: "string \<Rightarrow> string"
  let ?l1 = "[''TI  - Paper'', ''AU  - Doe, J'', ''DO  - 10.1109/A'', ''ER  - '',
              ''TI  - Paper again'', ''DO  - 10.1109/A'', ''ER  - '']"
  let ?l2 = "[''TI  - Paper'', ''DO  - 10.1109/A'', ''ER  - '']"
  let ?read = "\<lambda>f. if f = ''1.(A)_x.ris'' then ?l1 else ?l2"
  let ?files = "[''1.(A)_x.ris'', ''2.(B)_y.ris'']"
  let ?ix = "index_name_of None ''scopus_exports''"
  let ?out = "\<lambda>g. deduplicate (stated_filter (group_rows netloc title ?read ?ix g) None None [])"
  let ?a1 = "\<lparr>Title = ''Paper'', Year = '''', Index = ''IEEE Xplore'', DOI = ''10.1109/A'',
              Author_Surname = ''Doe'', Author_Name = ''Doe, J'', source_file = ''1.(A)_x.ris''\<rparr>"
  let ?a2 = "\<lparr>Title = ''Paper again'', Year = '''', Index = ''IEEE Xplore'', DOI = ''10.1109/A'',
              Author_Surname = '''', Author_Name = '''', source_file = ''1.(A)_x.ris''\<rparr>"
  let ?b1 = "\<lparr>Title = ''Paper'', Year = '''', Index = ''IEEE Xplore'', DOI = ''10.1109/A'',
              Author_Surname = '''', Author_Name = '''', source_file = ''2.(B)_y.ris''\<rparr>"
  have h: "extract_group_header ''1.(A)_x.ris'' = (Some 1, ''1.(A)'')"
    "extract_group_header ''2.(B)_y.ris'' = (Some 2, ''2.(B)'')"
    by code_simp+
  have fg: "folder_groups ?files = [(''1.(A)'', [''1.(A)_x.ris'']), (''2.(B)'', [''2.(B)_y.ris''])]"
    by (simp add: folder_groups_def file_groups_def add_file_def h Let_def order_key_def)
  have ix: "?ix = ''scopus_exports''"
    by (simp add: index_name_of_def)
  have p1: "parse_ris_file ?l1 =
      Inr [[(''TI'', Scalar ''Paper''), (''AU'', Scalar ''Doe, J''), (''DO'', Scalar ''10.1109/A'')],
           [(''TI'', Scalar ''Paper again''), (''DO'', Scalar ''10.1109/A'')]]"
    by code_simp
  have p2: "parse_ris_file ?l2 = Inr [[(''TI'', Scalar ''Paper''), (''DO'', Scalar ''10.1109/A'')]]"
    by code_simp
  have r1: "record_to_row netloc title ''scopus_exports'' ''1.(A)_x.ris''
      [(''TI'', Scalar ''Paper''), (''AU'', Scalar ''Doe, J''), (''DO'', Scalar ''10.1109/A'')] = ?a1"
    by code_simp
  have r2: "record_to_row netloc title ''scopus_exports'' ''1.(A)_x.ris''
      [(''TI'', Scalar ''Paper again''), (''DO'', Scalar ''10.1109/A'')] = ?a2"
    by code_simp
  have r3: "record_to_row netloc title ''scopus_exports'' ''2.(B)_y.ris''
      [(''TI'', Scalar ''Paper''), (''DO'', Scalar ''10.1109/A'')] = ?b1"
    by code_simp
  have gr1: "group_rows netloc title ?read ?ix (''1.(A)'', [''1.(A)_x.ris''])
      = [with_group ''1.(A)'' ?a1, with_group ''1.(A)'' ?a2]"
    by (simp add: group_rows_def file_rows_def ix p1 ris_records_to_rows_def r1 r2)
  have gr2: "group_rows netloc title ?read ?ix (''2.(B)'', [''2.(B)_y.ris''])
      = [with_group ''2.(B)'' ?b1]"
    by (simp add: group_rows_def file_rows_def ix p2 ris_records_to_rows_def r3)
  have d1: "deduplicate [with_group ''1.(A)'' ?a1, with_group ''1.(A)'' ?a2] = [with_group ''1.(A)'' ?a1]"
    by code_simp
  have d2: "deduplicate [with_group ''2.(B)'' ?b1] = [with_group ''2.(B)'' ?b1]"
    by code_simp
  have o1: "?out (''1.(A)'', [''1.(A)_x.ris'']) = [with_group ''1.(A)'' ?a1]"
    by (simp only: gr1) (simp add: stated_filter_def bound_set_def keywords_pass_def d1)
  have o2: "?out (''2.(B)'', [''2.(B)_y.ris'']) = [with_group ''2.(B)'' ?b1]"
    by (simp only: gr2) (simp add: stated_filter_def bound_set_def keywords_pass_def d2)
  have 1: "?files \<noteq> []" by simp
  have 2: "\<forall>g \<in> set (folder_groups ?files).
           \<not> (group_rows netloc title ?read ?ix g = [] \<and> bound_set None None)"
    by (simp add: bound_set_def)
  from ex_conj_fst_snd[OF deduplication_is_per_group[OF 1 2, of "''outputs''" "[]"]] obtain res where
    res: "build_grouped_excel_for_folder netloc title ?read ''scopus_exports'' ?files ''outputs''
            None None None [] True = Inr (Some res)"
         "raw_results res = concat (map ?out (folder_groups ?files))"
    by (elim exE conjE) (rule that)
  have "raw_results res = ?out (''1.(A)'', [''1.(A)_x.ris'']) @ ?out (''2.(B)'', [''2.(B)_y.ris''])"
    by (simp only: res(2) fg list.map concat.simps append_Nil2)
  then have "raw_results res = [with_group ''1.(A)'' ?a1, with_group ''2.(B)'' ?b1]"
    by (simp only: o1 o2 append.simps)
  then have "map DOI (raw_results res) = [''10.1109/A'', ''10.1109/A''] \<and>
     map row_group (raw_results res) = [''1.(A)'', ''2.(B)'']"
    by (simp add: with_group_def)
  with res(1) have "build_grouped_excel_for_folder netloc title ?read ''scopus_exports'' ?files
            ''outputs'' None None None [] True = Inr (Some res) \<and>
       map DOI (raw_results res) = [''10.1109/A'', ''10.1109/A''] \<and>
       map row_group (raw_results res) = [''1.(A)'', ''2.(B)'']"
    by (rule conjI)
  then show "\<exists>res. build_grouped_excel_for_folder netloc title ?read ''scopus_exports'' ?files
            ''outputs'' None None None [] True = Inr (Some res) \<and>
       map DOI (raw_results res) = [''10.1109/A'', ''10.1109/A''] \<and>
       map row_group (raw_results res) = [''1.(A)'', ''2.(B)'']"
    by - (rule exI, assumption)
qed

end
